theory Spec2Isabelle
  imports Main "HOL-Library.Word"
begin

section \<open>The heap-growth hook of the picolibc glue (lib/libc/picolibc/libc-hooks.c)\<close>

text \<open>
  The C types of the hook are kept: \<open>heap_sz\<close> is an \<open>unsigned int\<close> (32 bits on every
  target of the kernel), while \<open>intptr_t\<close>, \<open>size_t\<close> and pointers have the width of an
  address, which is the type parameter \<open>'a\<close> below (32 on ILP32 targets, 64 on LP64
  targets). How line 372 compares depends on the build, through the C type of
  \<open>MAX_HEAP_SIZE\<close>; the build is a parameter of the model (see \<open>heap_fits\<close> below).
\<close>

subsection \<open>The semaphore guarding the mark\<close>

record sys_sem =
  sem_count :: nat
  sem_limit :: nat

text \<open>\<open>SYS_SEM_DEFINE(heap_sem, 1, 1)\<close> (line 358): initial count 1, limit 1.\<close>

definition heap_sem_init :: sys_sem where
  "heap_sem_init = \<lparr>sem_count = 1, sem_limit = 1\<rparr>"

text \<open>
  Modelled from the spec: \<open>sys_sem_take\<close> and \<open>sys_sem_give\<close> belong to the kernel, outside
  this file. The spec describes the lock as a binary
  mutual-exclusion primitive (count 1) with blocking acquire and release. Taking with
  \<open>K_FOREVER\<close> decrements a positive count; on a count of zero the caller waits, which
  in a serial run is a call that never returns (\<open>None\<close>). Giving increments the count up
  to the limit; its return value is ignored by the caller (line 379).
\<close>

definition sys_sem_take :: "sys_sem \<Rightarrow> sys_sem option" where
  "sys_sem_take sem =
     (if 0 < sem_count sem then Some (sem\<lparr>sem_count := sem_count sem - 1\<rparr>) else None)"

definition sys_sem_give :: "sys_sem \<Rightarrow> sys_sem" where
  "sys_sem_give sem =
     (if sem_count sem < sem_limit sem then sem\<lparr>sem_count := sem_count sem + 1\<rparr> else sem)"

subsection \<open>The state read and written by \<open>_sbrk\<close>\<close>

text \<open>
  \<open>heap_base\<close> and \<open>max_heap_size\<close> are what \<open>HEAP_BASE\<close> and \<open>MAX_HEAP_SIZE\<close> expand to
  (variables under an MMU, constants otherwise); \<open>'p\<close> is instantiated with the address
  type \<open>'a word\<close>. \<open>heap_sz\<close> is the static of line 115, \<open>heap_sem\<close> the one of line 358.
\<close>

record 'p libc_state =
  heap_base :: 'p
  max_heap_size :: 'p
  heap_sz :: "32 word"
  heap_sem :: sys_sem

text \<open>
  The state at start-up: \<open>heap_sz\<close> lives in a zero-initialised section and the semaphore
  is defined available.
\<close>

definition libc_init :: "'a word \<Rightarrow> 'a word \<Rightarrow> 'a word libc_state" where
  "libc_init base cap =
     \<lparr>heap_base = base, max_heap_size = cap, heap_sz = 0, heap_sem = heap_sem_init\<rparr>"

subsection \<open>The test of line 372\<close>

text \<open>
  \<open>(heap_sz + count) < MAX_HEAP_SIZE\<close> is evaluated after the usual arithmetic
  conversions. The sum has the address width: the mark is zero-extended (\<open>ucast\<close>) and
  the addition wraps modulo \<open>2 ^ LENGTH('a)\<close> (on LP64 the sum is a \<open>long\<close>, whose
  overflow is undefined in C and wraps here). The comparison is
  \<^item> unsigned when \<open>MAX_HEAP_SIZE\<close> is unsigned: the \<open>size_t\<close> variable \<open>max_heap_size\<close>
    (MMU), or the linker-derived expression over \<open>uintptr_t\<close> (neither MMU nor aligned
    heap);
  \<^item> unsigned on ILP32 when \<open>MAX_HEAP_SIZE\<close> is the \<open>int\<close> constant
    \<open>CONFIG_PICOLIBC_ALIGNED_HEAP_SIZE\<close> (aligned heap), because there the sum is
    unsigned and the constant is converted to it;
  \<^item> signed on LP64 with the aligned heap, because there the sum is a \<open>long\<close>, which
    holds every \<open>unsigned int\<close>, and the \<open>int\<close> constant is converted to \<open>long\<close>.
  The parameter \<open>aligned_heap\<close> says whether the build defines
  \<open>CONFIG_PICOLIBC_ALIGNED_HEAP_SIZE\<close> (without an MMU); in such a build the field
  \<open>max_heap_size\<close> holds the constant.
\<close>

definition heap_fits :: "bool \<Rightarrow> 'a::len word libc_state \<Rightarrow> 'a word \<Rightarrow> bool" where
  "heap_fits aligned_heap s count =
     (if aligned_heap \<and> 32 < LENGTH('a)
      then sint (ucast (heap_sz s) + count :: 'a word) < sint (max_heap_size s)
      else ucast (heap_sz s) + count < max_heap_size s)"

subsection \<open>\<open>_sbrk\<close> (lines 360-383), run to completion\<close>

text \<open>
  The result is the returned pointer together with the state left behind; \<open>- 1\<close> is
  \<open>(void *)-1\<close>, the word with all bits set. The compound assignment of line 373
  converts the sum of the address width back to \<open>unsigned int\<close>.
\<close>

definition sbrk_build ::
  "bool \<Rightarrow> 'a::len word libc_state \<Rightarrow> 'a word \<Rightarrow> ('a word \<times> 'a word libc_state) option" where
  "sbrk_build aligned_heap s count =
     (case sys_sem_take (heap_sem s) of
        None \<Rightarrow> None
      | Some sem \<Rightarrow>
          (let s1 = s\<lparr>heap_sem := sem\<rparr>;
               ptr = heap_base s1 + ucast (heap_sz s1);
               (ret, s2) =
                 (if heap_fits aligned_heap s1 count
                  then (ptr, s1\<lparr>heap_sz := ucast (ucast (heap_sz s1) + count :: 'a word)\<rparr>)
                  else (- 1, s1))
           in Some (ret, s2\<lparr>heap_sem := sys_sem_give (heap_sem s2)\<rparr>)))"

text \<open>
  \<open>sbrk\<close> is \<open>_sbrk\<close> as built without the aligned heap. By \<open>heap_fits\<close> it is also
  \<open>_sbrk\<close> of an ILP32 build with the aligned heap (lemma \<open>sbrk_build_unsigned\<close>), so it
  stands for every build in which line 372 compares unsigned: every build but LP64
  with the aligned heap.
\<close>

definition sbrk :: "'a::len word libc_state \<Rightarrow> 'a word \<Rightarrow> ('a word \<times> 'a word libc_state) option" where
  "sbrk s count = sbrk_build False s count"

subsection \<open>Calls made one after the other\<close>

text \<open>
  A caller that issues the requests \<open>counts\<close> serially, collecting what each call
  returns; the state is threaded from one call to the next.
\<close>

fun sbrk_calls ::
  "'a::len word libc_state \<Rightarrow> 'a word list \<Rightarrow> ('a word list \<times> 'a word libc_state) option" where
  "sbrk_calls s [] = Some ([], s)"
| "sbrk_calls s (count # counts) =
     (case sbrk s count of
        None \<Rightarrow> None
      | Some (ret, s1) \<Rightarrow>
          (case sbrk_calls s1 counts of
             None \<Rightarrow> None
           | Some (rets, s2) \<Rightarrow> Some (ret # rets, s2)))"

text \<open>
  The grants of such a run, as the caller sees them: the calls that did not return
  \<open>(void *)-1\<close>, each as the pair of the pointer returned and the size requested. The
  bytes of a grant are the half-open interval of addresses
  \<open>[pointer, pointer + delta)\<close>, empty when \<open>delta\<close> is not positive.
\<close>

definition granted :: "'a::len word list \<Rightarrow> 'a word list \<Rightarrow> ('a word \<times> 'a word) list" where
  "granted counts rets = filter (\<lambda>g. fst g \<noteq> - 1) (zip rets counts)"

definition byte_range :: "'a::len word \<times> 'a word \<Rightarrow> int set" where
  "byte_range g = {uint (fst g) ..< uint (fst g) + sint (snd g)}"

text \<open>
  The states met between calls on a region that lies inside the address space and has
  at most \<open>2 ^ 31\<close> bytes: the semaphore is available and the mark is 0 or below the
  capacity.
\<close>

definition region_ok :: "'a::len word libc_state \<Rightarrow> bool" where
  "region_ok s \<longleftrightarrow>
     heap_sem s = heap_sem_init \<and>
     (heap_sz s = 0 \<or> uint (heap_sz s) < uint (max_heap_size s)) \<and>
     uint (max_heap_size s) \<le> 2 ^ 31 \<and>
     uint (heap_base s) + uint (max_heap_size s) \<le> 2 ^ LENGTH('a)"

subsection \<open>\<open>_sbrk\<close> statement by statement, for callers that interleave\<close>

text \<open>
  A call in progress is its argument, its two locals and the line it is about to
  execute (369 stands for the assignment to \<open>ptr\<close>, which is on line 367 when the heap
  is an aligned array); line 382 is the \<open>return\<close>, after which the call takes no
  further step. The
  locals are written before they are read, so their value on entry is immaterial.
  \<open>sbrk_step\<close> executes the statement at the current line against the shared state,
  as one atomic step (the two semaphore operations are atomic kernel calls); a caller
  waiting at line 364 for a semaphore whose count is zero has no step. The test of
  line 372 is \<open>heap_fits\<close>, as in \<open>sbrk_build\<close>.
\<close>

datatype sbrk_line = L364 | L369 | L372 | L373 | L374 | L376 | L380 | L382

record 'p sbrk_frame =
  at_line :: sbrk_line
  arg_count :: 'p
  loc_ptr :: 'p
  loc_ret :: 'p

definition sbrk_enter :: "'a::len word \<Rightarrow> 'a word sbrk_frame" where
  "sbrk_enter count = \<lparr>at_line = L364, arg_count = count, loc_ptr = 0, loc_ret = 0\<rparr>"

definition sbrk_step ::
  "bool \<Rightarrow> 'a::len word libc_state \<Rightarrow> 'a word sbrk_frame \<Rightarrow>
     ('a word libc_state \<times> 'a word sbrk_frame) option" where
  "sbrk_step aligned_heap g f =
     (case at_line f of
        L364 \<Rightarrow>
          (case sys_sem_take (heap_sem g) of
             None \<Rightarrow> None
           | Some sem \<Rightarrow> Some (g\<lparr>heap_sem := sem\<rparr>, f\<lparr>at_line := L369\<rparr>))
      | L369 \<Rightarrow> Some (g, f\<lparr>loc_ptr := heap_base g + ucast (heap_sz g), at_line := L372\<rparr>)
      | L372 \<Rightarrow>
          Some (g, f\<lparr>at_line := (if heap_fits aligned_heap g (arg_count f) then L373 else L376)\<rparr>)
      | L373 \<Rightarrow>
          Some (g\<lparr>heap_sz := ucast (ucast (heap_sz g) + arg_count f :: 'a word)\<rparr>,
                f\<lparr>at_line := L374\<rparr>)
      | L374 \<Rightarrow> Some (g, f\<lparr>loc_ret := loc_ptr f, at_line := L380\<rparr>)
      | L376 \<Rightarrow> Some (g, f\<lparr>loc_ret := - 1, at_line := L380\<rparr>)
      | L380 \<Rightarrow> Some (g\<lparr>heap_sem := sys_sem_give (heap_sem g)\<rparr>, f\<lparr>at_line := L382\<rparr>)
      | L382 \<Rightarrow> None)"

text \<open>
  What an observer of the shared state sees of one step: which caller moved, from which
  line, and the count of the semaphore and the mark before and after the step.
\<close>

record sbrk_event =
  ev_caller :: nat
  ev_line :: sbrk_line
  ev_sem_before :: nat
  ev_sem_after :: nat
  ev_mark_before :: "32 word"
  ev_mark_after :: "32 word"

definition sbrk_observe ::
  "nat \<Rightarrow> 'a::len word sbrk_frame \<Rightarrow> 'a word libc_state \<Rightarrow> 'a word libc_state \<Rightarrow> sbrk_event" where
  "sbrk_observe t f g g' =
     \<lparr>ev_caller = t, ev_line = at_line f,
      ev_sem_before = sem_count (heap_sem g), ev_sem_after = sem_count (heap_sem g'),
      ev_mark_before = heap_sz g, ev_mark_after = heap_sz g'\<rparr>"

text \<open>
  \<open>sbrk_schedule\<close> runs several calls against one shared state, each entry of the
  schedule naming the caller that takes the next step; a schedule that picks a caller
  with no step is not a run (\<open>None\<close>). The run keeps the history of what was observed,
  one event per step, oldest first.
\<close>

fun sbrk_schedule ::
  "bool \<Rightarrow> 'a::len word libc_state \<times> 'a word sbrk_frame list \<times> sbrk_event list \<Rightarrow> nat list \<Rightarrow>
     ('a word libc_state \<times> 'a word sbrk_frame list \<times> sbrk_event list) option" where
  "sbrk_schedule aligned_heap st [] = Some st"
| "sbrk_schedule aligned_heap (g, fs, log) (t # sched) =
     (if t < length fs then
        (case sbrk_step aligned_heap g (fs ! t) of
           None \<Rightarrow> None
         | Some (g', f') \<Rightarrow>
             sbrk_schedule aligned_heap
               (g', fs[t := f'], log @ [sbrk_observe t (fs ! t) g g']) sched)
      else None)"

text \<open>
  How often a caller has taken the semaphore (a step of its own that lowered the count)
  and given it (a step of its own that raised the count), read off the history.
\<close>

definition takes :: "nat \<Rightarrow> sbrk_event list \<Rightarrow> nat" where
  "takes t log = length (filter (\<lambda>e. ev_caller e = t \<and> ev_sem_after e < ev_sem_before e) log)"

definition gives :: "nat \<Rightarrow> sbrk_event list \<Rightarrow> nat" where
  "gives t log = length (filter (\<lambda>e. ev_caller e = t \<and> ev_sem_before e < ev_sem_after e) log)"

text \<open>
  An event agrees with the source when the count went down only at line 364, went up
  only at line 380, and the mark changed only at line 373.
\<close>

definition event_ok :: "sbrk_event \<Rightarrow> bool" where
  "event_ok e \<longleftrightarrow>
     (ev_sem_after e < ev_sem_before e \<longrightarrow> ev_line e = L364) \<and>
     (ev_sem_before e < ev_sem_after e \<longrightarrow> ev_line e = L380) \<and>
     (ev_mark_after e \<noteq> ev_mark_before e \<longrightarrow> ev_line e = L373)"

text \<open>
  What a step does apart from the mark: the frame it leaves and the shared state with
  the mark blanked. A step reads the mark when this depends on the mark it finds.
\<close>

definition sbrk_step_beside_mark ::
  "bool \<Rightarrow> 'a::len word libc_state \<Rightarrow> 'a word sbrk_frame \<Rightarrow>
     ('a word libc_state \<times> 'a word sbrk_frame) option" where
  "sbrk_step_beside_mark aligned_heap g f =
     map_option (\<lambda>(g', f'). (g'\<lparr>heap_sz := 0\<rparr>, f')) (sbrk_step aligned_heap g f)"

text \<open>The lines between the take of line 364 and the give of line 380.\<close>

definition holds_sem :: "'p sbrk_frame \<Rightarrow> bool" where
  "holds_sem f \<longleftrightarrow> at_line f \<in> {L369, L372, L373, L374, L376, L380}"

text \<open>
  The lock invariant: the callers between the take and the give, plus the count of the
  semaphore, make exactly one; and the history of every caller has no take before
  line 364 is executed and one after, no give before line 380 is executed and one
  after.
\<close>

definition lock_inv ::
  "'a::len word libc_state \<times> 'a word sbrk_frame list \<times> sbrk_event list \<Rightarrow> bool" where
  "lock_inv st \<longleftrightarrow>
     (case st of (g, fs, log) \<Rightarrow>
        sem_limit (heap_sem g) = 1 \<and>
        length (filter holds_sem fs) + sem_count (heap_sem g) = 1 \<and>
        (\<forall>t<length fs.
            takes t log = (if at_line (fs ! t) = L364 then 0 else 1) \<and>
            gives t log = (if at_line (fs ! t) = L382 then 1 else 0)))"

text \<open>The number of statements a call at a given line has at most still to execute.\<close>

fun lines_left :: "sbrk_line \<Rightarrow> nat" where
  "lines_left L364 = 6"
| "lines_left L369 = 5"
| "lines_left L372 = 4"
| "lines_left L373 = 3"
| "lines_left L374 = 2"
| "lines_left L376 = 2"
| "lines_left L380 = 1"
| "lines_left L382 = 0"

section \<open>The console hooks (lines 164-190)\<close>

type_synonym byte = "8 word"

text \<open>
  \<open>putchar\<close> and \<open>getchar\<close> belong to the C library and are the environment of the two
  hooks. What \<open>putchar\<close> is given is recorded in order; \<open>getchar\<close> yields the next value
  of the input, or \<open>EOF\<close> (\<open>- 1\<close>) once there is none.
\<close>

definition putchar :: "byte \<Rightarrow> byte list \<Rightarrow> byte list" where
  "putchar c out = out @ [c]"

fun getchar :: "int list \<Rightarrow> int \<times> int list" where
  "getchar [] = (- 1, [])"
| "getchar (c # inp) = (c, inp)"

text \<open>
  The loop of \<open>z_impl_zephyr_write_stdout\<close> (lines 183-188) from index \<open>i\<close> on. The
  buffer is the list of bytes the pointer refers to; reading past its end is undefined
  in C and is \<open>None\<close> here.
\<close>

function write_stdout_loop :: "byte list \<Rightarrow> int \<Rightarrow> int \<Rightarrow> byte list \<Rightarrow> byte list option" where
  "write_stdout_loop buf nbytes i out =
     (if i < nbytes then
        (if i < 0 \<or> int (length buf) \<le> i then None
         else
           (let out1 = (if buf ! nat i = 0x0A then putchar 0x0D out else out)
            in write_stdout_loop buf nbytes (i + 1) (putchar (buf ! nat i) out1)))
      else Some out)"
  by pat_completeness auto
termination
  by (relation "measure (\<lambda>(buf, nbytes, i, out). nat (nbytes - i))") auto

definition z_impl_zephyr_write_stdout :: "byte list \<Rightarrow> int \<Rightarrow> byte list \<Rightarrow> (int \<times> byte list) option" where
  "z_impl_zephyr_write_stdout buffer nbytes out =
     (case write_stdout_loop buffer nbytes 0 out of
        None \<Rightarrow> None
      | Some out' \<Rightarrow> Some (nbytes, out'))"

text \<open>
  The loop of \<open>z_impl_zephyr_read_stdin\<close> (lines 168-174) from index \<open>i\<close> on: the value
  of \<open>getchar\<close> is converted to \<open>char\<close> as it is stored, and the stored byte is the one
  compared. The result is the count returned, the buffer and the input still unread.
\<close>

function read_stdin_loop :: "byte list \<Rightarrow> int \<Rightarrow> int \<Rightarrow> int list \<Rightarrow> (int \<times> byte list \<times> int list) option" where
  "read_stdin_loop buf nbytes i inp =
     (if i < nbytes then
        (if i < 0 \<or> int (length buf) \<le> i then None
         else
           (let (c, inp1) = getchar inp;
                buf1 = buf[nat i := word_of_int c]
            in if buf1 ! nat i = 0x0A \<or> buf1 ! nat i = 0x0D
               then Some (i + 1, buf1, inp1)
               else read_stdin_loop buf1 nbytes (i + 1) inp1))
      else Some (i, buf, inp))"
  by pat_completeness auto
termination
  by (relation "measure (\<lambda>(buf, nbytes, i, inp). nat (nbytes - i))") auto

definition z_impl_zephyr_read_stdin :: "byte list \<Rightarrow> int \<Rightarrow> int list \<Rightarrow> (int \<times> byte list \<times> int list) option" where
  "z_impl_zephyr_read_stdin buf nbytes inp = read_stdin_loop buf nbytes 0 inp"

declare write_stdout_loop.simps [simp del] read_stdin_loop.simps [simp del]

section \<open>Arithmetic of the bounds check\<close>

lemma sbrk_sum_word_of_int:
  "(ucast (h :: 32 word) + c :: 'a::len word) = word_of_int (uint h + sint c)"
  by simp

lemma uint_sbrk_sum:
  "uint (ucast (h :: 32 word) + c :: 'a::len word) = (uint h + sint c) mod 2 ^ LENGTH('a)"
  by (simp only: sbrk_sum_word_of_int uint_word_of_int)

lemma uint_ucast_mark:
  "32 \<le> LENGTH('a::len) \<Longrightarrow> uint (ucast (h :: 32 word) :: 'a word) = uint h"
  by (rule uint_up_ucast) (simp add: is_up)

lemma ucast_sbrk_sum:
  fixes h :: "32 word" and c :: "'a::len word"
  assumes len: "32 \<le> LENGTH('a)"
  shows "(ucast (ucast h + c :: 'a word) :: 32 word) = h + ucast c"
proof -
  have d: "is_down (ucast :: 'a word \<Rightarrow> 32 word)"
    using len by (simp add: is_down)
  have "(ucast (ucast h + c :: 'a word) :: 32 word)
        = ucast (word_of_int (uint h + sint c) :: 'a word)"
    by (simp only: sbrk_sum_word_of_int)
  also have "\<dots> = word_of_int (uint h + sint c)"
    using d by (rule ucast_down_wi)
  also have "\<dots> = h + word_of_int (sint c)"
    by simp
  also have "word_of_int (sint c) = (ucast (word_of_int (sint c) :: 'a word) :: 32 word)"
    using d by (rule ucast_down_wi [symmetric])
  finally show ?thesis by simp
qed

lemma uint_new_mark_mod:
  fixes h :: "32 word" and c :: "'a::len word"
  assumes len: "32 \<le> LENGTH('a)"
  shows "uint (ucast (ucast h + c :: 'a word) :: 32 word) = (uint h + sint c) mod 2 ^ 32"
proof -
  have d: "is_down (ucast :: 'a word \<Rightarrow> 32 word)"
    using len by (simp add: is_down)
  have "(ucast (ucast h + c :: 'a word) :: 32 word)
        = ucast (word_of_int (uint h + sint c) :: 'a word)"
    by (simp only: sbrk_sum_word_of_int)
  also have "\<dots> = word_of_int (uint h + sint c)"
    using d by (rule ucast_down_wi)
  finally show ?thesis
    by (simp only: uint_word_of_int) simp
qed

lemma uint_new_mark_le:
  fixes h :: "32 word" and c :: "'a::len word"
  shows "uint (ucast (ucast h + c :: 'a word) :: 32 word) \<le> uint (ucast h + c :: 'a word)"
  by (simp add: unsigned_ucast_eq take_bit_int_less_eq_self_iff)

lemma sint_bounds:
  "- (2 ^ (LENGTH('a) - 1)) \<le> sint (c :: 'a::len word) \<and> sint c < 2 ^ (LENGTH('a) - 1)"
  using sint_ge [of c] sint_lt [of c] by simp

lemma two_power_len: "(2::int) ^ LENGTH('a::len) = 2 * 2 ^ (LENGTH('a) - 1)"
  by (metis len_gt_0 power_eq_if less_numeral_extra(3))

lemma two_power_31_le: "32 \<le> LENGTH('a::len) \<Longrightarrow> (2::int) ^ 31 \<le> 2 ^ (LENGTH('a) - 1)"
  by (rule power_increasing) auto

text \<open>
  On a region of at most \<open>2 ^ 31\<close> bytes whose mark is within the capacity, the test of
  line 372 decides exactly whether the integer \<open>mark + delta\<close> lies in
  \<open>[0, capacity)\<close>: a negative sum wraps to a value of at least \<open>2 ^ 31\<close>.
\<close>

lemma sbrk_test_exact:
  fixes h :: "32 word" and c m :: "'a::len word"
  assumes len: "32 \<le> LENGTH('a)" and hm: "uint h \<le> uint m" and m: "uint m \<le> 2 ^ 31"
  shows "(ucast h + c < m) \<longleftrightarrow> (0 \<le> uint h + sint c \<and> uint h + sint c < uint m)"
proof -
  let ?k = "uint h + sint c"
  let ?H = "(2::int) ^ (LENGTH('a) - 1)"
  have r: "- ?H \<le> sint c" "sint c < ?H"
    using sint_bounds [of c] by auto
  have p: "(2::int) ^ LENGTH('a) = 2 * ?H"
    by (rule two_power_len)
  have q: "(2::int) ^ 31 \<le> ?H"
    using len by (rule two_power_31_le)
  have h0: "0 \<le> uint h"
    by simp
  have lt: "(ucast h + c < m) \<longleftrightarrow> ?k mod (2 * ?H) < uint m"
    by (simp only: word_less_def uint_sbrk_sum p)
  show ?thesis
  proof (cases "0 \<le> ?k")
    case True
    have "?k < 2 * ?H"
      using r hm m q by linarith
    with True have "?k mod (2 * ?H) = ?k"
      by (rule mod_pos_pos_trivial)
    then show ?thesis
      using lt True by simp
  next
    case False
    have "0 \<le> ?k + 2 * ?H" "?k + 2 * ?H < 2 * ?H"
      using False r h0 by linarith+
    then have "(?k + 2 * ?H) mod (2 * ?H) = ?k + 2 * ?H"
      by (rule mod_pos_pos_trivial)
    then have "?k mod (2 * ?H) = ?k + 2 * ?H"
      by (simp only: mod_add_self2)
    moreover have "uint m \<le> ?k + 2 * ?H"
      using r h0 m q by linarith
    ultimately show ?thesis
      using lt False by simp
  qed
qed

text \<open>Without any bound on the region: a sum inside \<open>[0, capacity)\<close> passes the test.\<close>

lemma sbrk_test_in_range:
  fixes h :: "32 word" and c m :: "'a::len word"
  assumes lo: "0 \<le> uint h + sint c" and hi: "uint h + sint c < uint m"
  shows "ucast h + c < m"
proof -
  have "uint m < 2 ^ LENGTH('a)"
    by (rule uint_lt2p)
  with hi have "uint h + sint c < 2 ^ LENGTH('a)"
    by linarith
  with lo have "(uint h + sint c) mod 2 ^ LENGTH('a) = uint h + sint c"
    by (rule mod_pos_pos_trivial)
  then show ?thesis
    using hi by (simp only: word_less_def uint_sbrk_sum)
qed

text \<open>A sum that lands exactly on the capacity does not pass it.\<close>

lemma sbrk_test_exact_fit:
  fixes h :: "32 word" and c m :: "'a::len word"
  assumes eq: "uint h + sint c = uint m"
  shows "\<not> ucast h + c < m"
proof -
  have "(ucast h + c :: 'a word) = word_of_int (uint m)"
    by (simp only: sbrk_sum_word_of_int eq)
  then have "(ucast h + c :: 'a word) = m"
    by simp
  then show ?thesis
    by simp
qed

lemma sint_sbrk_sum:
  fixes h :: "32 word" and c :: "'a::len word"
  assumes "- (2 ^ (LENGTH('a) - 1)) \<le> uint h + sint c" and "uint h + sint c < 2 ^ (LENGTH('a) - 1)"
  shows "sint (ucast h + c :: 'a word) = uint h + sint c"
proof -
  have "sint (ucast h + c :: 'a word) = sint (word_of_int (uint h + sint c) :: 'a word)"
    by (simp only: sbrk_sum_word_of_int)
  also have "\<dots> = signed_take_bit (LENGTH('a) - 1) (uint h + sint c)"
    by (rule sint_sbintrunc')
  also have "\<dots> = uint h + sint c"
    using assms by (rule signed_take_bit_int_eq_self)
  finally show ?thesis .
qed

lemma sint_capacity:
  fixes m :: "'a::len word"
  assumes "uint m < 2 ^ (LENGTH('a) - 1)"
  shows "sint m = uint m"
proof -
  have "sint m = sint (word_of_int (uint m) :: 'a word)"
    by simp
  also have "\<dots> = signed_take_bit (LENGTH('a) - 1) (uint m)"
    by (rule sint_sbintrunc')
  also have "\<dots> = uint m"
  proof (rule signed_take_bit_int_eq_self)
    have "(0::int) \<le> 2 ^ (LENGTH('a) - 1)" by simp
    moreover have "0 \<le> uint m" by simp
    ultimately show "- (2 ^ (LENGTH('a) - 1)) \<le> uint m" by linarith
    show "uint m < 2 ^ (LENGTH('a) - 1)" by (rule assms)
  qed
  finally show ?thesis .
qed

lemma two_power_31_less:
  assumes "32 < LENGTH('a::len)" and "k \<le> 2 ^ 31"
  shows "(k::int) < 2 ^ (LENGTH('a) - 1)"
proof -
  have "(2::int) ^ 32 \<le> 2 ^ (LENGTH('a) - 1)"
    using assms(1) by (intro power_increasing) auto
  moreover have "(2::int) ^ 31 < 2 ^ 32"
    by simp
  ultimately show ?thesis
    using assms(2) by linarith
qed

text \<open>
  The signed test of an LP64 build with the aligned heap agrees with the integers as
  long as the sum is within the range of \<open>intptr_t\<close> and the capacity is positive as an
  \<open>intptr_t\<close>; a sum below zero passes it.
\<close>

lemma sbrk_test_signed:
  fixes h :: "32 word" and c m :: "'a::len word"
  assumes "uint m < 2 ^ (LENGTH('a) - 1)"
    and "- (2 ^ (LENGTH('a) - 1)) \<le> uint h + sint c" and "uint h + sint c < 2 ^ (LENGTH('a) - 1)"
  shows "sint (ucast h + c :: 'a word) < sint m \<longleftrightarrow> uint h + sint c < uint m"
  by (simp only: sint_sbrk_sum [OF assms(2,3)] sint_capacity [OF assms(1)])

section \<open>The two paths of \<open>_sbrk\<close>\<close>

lemma sem_take_give_init:
  "sys_sem_take heap_sem_init = Some (heap_sem_init\<lparr>sem_count := 0\<rparr>)"
  "sys_sem_give (heap_sem_init\<lparr>sem_count := 0\<rparr>) = heap_sem_init"
  by (simp_all add: sys_sem_take_def sys_sem_give_def heap_sem_init_def)

lemma heap_fits_heap_sem [simp]:
  "heap_fits aligned_heap (s\<lparr>heap_sem := sem\<rparr>) count = heap_fits aligned_heap s count"
  by (simp add: heap_fits_def)

lemma heap_fits_unsigned:
  fixes s :: "'a::len word libc_state"
  shows "\<not> (aligned_heap \<and> 32 < LENGTH('a)) \<Longrightarrow>
    heap_fits aligned_heap s count \<longleftrightarrow> ucast (heap_sz s) + count < max_heap_size s"
  by (auto simp: heap_fits_def)

lemma heap_fits_False:
  "heap_fits False s count \<longleftrightarrow> ucast (heap_sz s) + count < max_heap_size s"
  by (simp add: heap_fits_def)

text \<open>
  In every build the test passes a sum in \<open>[0, capacity)\<close> and rejects a sum equal to
  the capacity; with the aligned heap the capacity is an \<open>int\<close> constant. A sum that
  passes is below the capacity, provided it is within the range of \<open>intptr_t\<close> where
  the comparison is signed.
\<close>

lemma heap_fits_in_range:
  fixes s :: "'a::len word libc_state"
  assumes len: "32 \<le> LENGTH('a)" and cap: "aligned_heap \<longrightarrow> uint (max_heap_size s) \<le> 2 ^ 31"
    and k: "0 \<le> uint (heap_sz s) + sint count"
      "uint (heap_sz s) + sint count < uint (max_heap_size s)"
  shows "heap_fits aligned_heap s count"
proof (cases "aligned_heap \<and> 32 < LENGTH('a)")
  case True
  let ?H = "(2::int) ^ (LENGTH('a) - 1)"
  have m: "uint (max_heap_size s) < ?H"
  proof (rule two_power_31_less)
    show "32 < LENGTH('a)"
      using True by simp
    show "uint (max_heap_size s) \<le> 2 ^ 31"
      using cap True by simp
  qed
  have "(0::int) \<le> ?H"
    by simp
  with k m have "- ?H \<le> uint (heap_sz s) + sint count" "uint (heap_sz s) + sint count < ?H"
    by linarith+
  from sbrk_test_signed [OF m this] k(2) True show ?thesis
    by (simp add: heap_fits_def)
next
  case False
  have "ucast (heap_sz s) + count < max_heap_size s"
    using k by (simp add: sbrk_test_in_range)
  with False show ?thesis
    by (simp add: heap_fits_unsigned)
qed

lemma heap_fits_exact_fit:
  fixes s :: "'a::len word libc_state"
  assumes len: "32 \<le> LENGTH('a)" and cap: "aligned_heap \<longrightarrow> uint (max_heap_size s) \<le> 2 ^ 31"
    and k: "uint (heap_sz s) + sint count = uint (max_heap_size s)"
  shows "\<not> heap_fits aligned_heap s count"
proof (cases "aligned_heap \<and> 32 < LENGTH('a)")
  case True
  let ?H = "(2::int) ^ (LENGTH('a) - 1)"
  have m: "uint (max_heap_size s) < ?H"
  proof (rule two_power_31_less)
    show "32 < LENGTH('a)"
      using True by simp
    show "uint (max_heap_size s) \<le> 2 ^ 31"
      using cap True by simp
  qed
  have "(0::int) \<le> ?H" "0 \<le> uint (max_heap_size s)"
    by simp_all
  with k m have "- ?H \<le> uint (heap_sz s) + sint count" "uint (heap_sz s) + sint count < ?H"
    by linarith+
  from sbrk_test_signed [OF m this] k True show ?thesis
    by (simp add: heap_fits_def)
next
  case False
  have "\<not> ucast (heap_sz s) + count < max_heap_size s"
    using k by (rule sbrk_test_exact_fit)
  with False show ?thesis
    by (simp add: heap_fits_unsigned)
qed

lemma heap_fits_below:
  fixes s :: "'a::len word libc_state"
  assumes len: "32 \<le> LENGTH('a)"
    and hm: "uint (heap_sz s) \<le> uint (max_heap_size s)" and m: "uint (max_heap_size s) \<le> 2 ^ 31"
    and ovf: "aligned_heap \<and> 32 < LENGTH('a) \<longrightarrow>
              uint (heap_sz s) + sint count < 2 ^ (LENGTH('a) - 1)"
    and fits: "heap_fits aligned_heap s count"
  shows "uint (heap_sz s) + sint count < uint (max_heap_size s)"
proof (cases "aligned_heap \<and> 32 < LENGTH('a)")
  case True
  let ?H = "(2::int) ^ (LENGTH('a) - 1)"
  have c: "uint (max_heap_size s) < ?H"
  proof (rule two_power_31_less)
    show "32 < LENGTH('a)"
      using True by simp
    show "uint (max_heap_size s) \<le> 2 ^ 31"
      by (rule m)
  qed
  have "- ?H \<le> sint count" "0 \<le> uint (heap_sz s)"
    using sint_bounds [of count] by simp_all
  then have lo: "- ?H \<le> uint (heap_sz s) + sint count"
    by linarith
  have hi: "uint (heap_sz s) + sint count < ?H"
    using ovf True by simp
  from sbrk_test_signed [OF c lo hi] fits True show ?thesis
    by (simp add: heap_fits_def)
next
  case False
  with fits have "ucast (heap_sz s) + count < max_heap_size s"
    by (simp add: heap_fits_unsigned)
  then show ?thesis
    using sbrk_test_exact [OF len hm m, of count] by simp
qed

lemma sbrk_build_success:
  fixes s :: "'a::len word libc_state"
  assumes "heap_sem s = heap_sem_init" and "heap_fits aligned_heap s count"
  shows "sbrk_build aligned_heap s count =
           Some (heap_base s + ucast (heap_sz s),
                 s\<lparr>heap_sz := ucast (ucast (heap_sz s) + count :: 'a word)\<rparr>)"
  using assms by (simp add: sbrk_build_def sem_take_give_init)

lemma sbrk_build_failure:
  fixes s :: "'a::len word libc_state"
  assumes "heap_sem s = heap_sem_init" and "\<not> heap_fits aligned_heap s count"
  shows "sbrk_build aligned_heap s count = Some (- 1, s)"
  using assms by (simp add: sbrk_build_def sem_take_give_init)

lemma sbrk_build_blocks:
  fixes s :: "'a::len word libc_state"
  shows "sem_count (heap_sem s) = 0 \<Longrightarrow> sbrk_build aligned_heap s count = None"
  by (simp add: sbrk_build_def sys_sem_take_def)

lemma sbrk_build_unsigned:
  fixes s :: "'a::len word libc_state"
  assumes "\<not> (aligned_heap \<and> 32 < LENGTH('a))"
  shows "sbrk_build aligned_heap s count = sbrk s count"
proof -
  have "heap_fits aligned_heap t c = heap_fits False t c" for t :: "'a word libc_state" and c
    using assms by (auto simp: heap_fits_def)
  then show ?thesis
    by (simp only: sbrk_def sbrk_build_def)
qed

text \<open>
  Where line 372 compares unsigned, a call made with the semaphore available returns
  for every signed request, a mark within the capacity stays within it, and the base
  and the capacity are the ones the call started with.
\<close>

lemma sbrk_build_region_unsigned:
  fixes s :: "'a::len word libc_state"
  assumes "\<not> (aligned_heap \<and> 32 < LENGTH('a))"
    and "heap_sem s = heap_sem_init"
    and "uint (heap_sz s) \<le> uint (max_heap_size s)"
  shows "\<exists>ret s'. sbrk_build aligned_heap s count = Some (ret, s') \<and>
           uint (heap_sz s') \<le> uint (max_heap_size s') \<and>
           heap_base s' = heap_base s \<and> max_heap_size s' = max_heap_size s"
proof (cases "heap_fits aligned_heap s count")
  case True
  let ?s' = "s\<lparr>heap_sz := ucast (ucast (heap_sz s) + count :: 'a word)\<rparr>"
  have t: "ucast (heap_sz s) + count < max_heap_size s"
    using True assms(1) by (simp add: heap_fits_unsigned)
  have "uint (heap_sz ?s') \<le> uint (ucast (heap_sz s) + count :: 'a word)"
    by (simp add: uint_new_mark_le)
  also have "\<dots> < uint (max_heap_size s)"
    using t by (simp add: word_less_def)
  finally have "uint (heap_sz ?s') \<le> uint (max_heap_size ?s')"
    by simp
  moreover have "sbrk_build aligned_heap s count = Some (heap_base s + ucast (heap_sz s), ?s')"
    using assms(2) True by (rule sbrk_build_success)
  ultimately show ?thesis
    by simp
next
  case False
  with assms(2) have "sbrk_build aligned_heap s count = Some (- 1, s)"
    by (rule sbrk_build_failure)
  then show ?thesis
    using assms(3) by simp
qed

text \<open>\<open>sbrk\<close> written out: the body of \<open>_sbrk\<close> with the unsigned test.\<close>

lemma sbrk_eq:
  fixes s :: "'a::len word libc_state"
  shows "sbrk s count =
     (case sys_sem_take (heap_sem s) of
        None \<Rightarrow> None
      | Some sem \<Rightarrow>
          (let s1 = s\<lparr>heap_sem := sem\<rparr>;
               ptr = heap_base s1 + ucast (heap_sz s1);
               (ret, s2) =
                 (if ucast (heap_sz s1) + count < max_heap_size s1
                  then (ptr, s1\<lparr>heap_sz := ucast (ucast (heap_sz s1) + count :: 'a word)\<rparr>)
                  else (- 1, s1))
           in Some (ret, s2\<lparr>heap_sem := sys_sem_give (heap_sem s2)\<rparr>)))"
  by (simp only: sbrk_def sbrk_build_def heap_fits_False)

lemma sbrk_success:
  fixes s :: "'a::len word libc_state"
  assumes "heap_sem s = heap_sem_init"
    and "ucast (heap_sz s) + count < max_heap_size s"
  shows "sbrk s count =
           Some (heap_base s + ucast (heap_sz s),
                 s\<lparr>heap_sz := ucast (ucast (heap_sz s) + count :: 'a word)\<rparr>)"
  using assms by (simp add: sbrk_eq sem_take_give_init)

lemma sbrk_failure:
  fixes s :: "'a::len word libc_state"
  assumes "heap_sem s = heap_sem_init"
    and "\<not> ucast (heap_sz s) + count < max_heap_size s"
  shows "sbrk s count = Some (- 1, s)"
  using assms by (simp add: sbrk_eq sem_take_give_init)

section \<open>Runs of calls\<close>

lemma granted_Cons:
  "granted (c # cs) (r # rs) = (if r \<noteq> - 1 then (r, c) # granted cs rs else granted cs rs)"
  by (simp add: granted_def)

lemma granted_Nil: "granted [] rs = []"
  by (simp add: granted_def)

lemma region_ok_mark_le: "region_ok s \<Longrightarrow> uint (heap_sz s) \<le> uint (max_heap_size s)"
  by (auto simp: region_ok_def)

lemma uint_ptr:
  fixes s :: "'a::len word libc_state"
  assumes len: "32 \<le> LENGTH('a)" and ok: "region_ok s"
    and fit: "ucast (heap_sz s) + count < max_heap_size s"
  shows "uint (heap_base s + ucast (heap_sz s)) = uint (heap_base s) + uint (heap_sz s)"
proof -
  have m: "uint (heap_sz s) < uint (max_heap_size s)"
  proof (cases "heap_sz s = 0")
    case True
    have "uint (ucast (heap_sz s) + count) < uint (max_heap_size s)"
      using fit by (simp add: word_less_def)
    moreover have "0 \<le> uint (ucast (heap_sz s) + count :: 'a word)" by (rule uint_ge_0)
    ultimately have "0 < uint (max_heap_size s)" by linarith
    then show ?thesis using True by simp
  next
    case False
    then show ?thesis using ok by (simp add: region_ok_def)
  qed
  have "uint (heap_base s) + uint (ucast (heap_sz s) :: 'a word) < 2 ^ LENGTH('a)"
    using m ok by (simp add: region_ok_def uint_ucast_mark [OF len])
  then have "uint (heap_base s + ucast (heap_sz s)) = uint (heap_base s) + uint (ucast (heap_sz s) :: 'a word)"
    by (simp add: uint_add_lem)
  then show ?thesis by (simp add: uint_ucast_mark [OF len])
qed

text \<open>One call on a well-formed region.\<close>

lemma sbrk_step_ok:
  fixes s :: "'a::len word libc_state"
  assumes len: "32 \<le> LENGTH('a)" and ok: "region_ok s"
  shows "\<exists>ret s'. sbrk s count = Some (ret, s') \<and> region_ok s' \<and>
           heap_base s' = heap_base s \<and> max_heap_size s' = max_heap_size s \<and>
           (ret \<noteq> - 1 \<longrightarrow>
              uint ret = uint (heap_base s) + uint (heap_sz s) \<and>
              uint (heap_sz s') = uint (heap_sz s) + sint count \<and>
              uint (heap_sz s') < uint (max_heap_size s)) \<and>
           (heap_sz s' = heap_sz s \<or>
              uint (heap_sz s') = uint (heap_sz s) + sint count)"
proof (cases "ucast (heap_sz s) + count < max_heap_size s")
  case True
  let ?s' = "s\<lparr>heap_sz := ucast (ucast (heap_sz s) + count :: 'a word)\<rparr>"
  have sem: "heap_sem s = heap_sem_init" using ok by (simp add: region_ok_def)
  have cap: "uint (max_heap_size s) \<le> 2 ^ 31" using ok by (simp add: region_ok_def)
  have k: "0 \<le> uint (heap_sz s) + sint count"
      "uint (heap_sz s) + sint count < uint (max_heap_size s)"
    using True sbrk_test_exact [OF len region_ok_mark_le [OF ok] cap, of count] by simp_all
  have "uint (heap_sz ?s') = (uint (heap_sz s) + sint count) mod 2 ^ 32"
    using uint_new_mark_mod [OF len, of "heap_sz s" count] by simp
  also have "\<dots> = uint (heap_sz s) + sint count"
  proof (rule mod_pos_pos_trivial)
    show "0 \<le> uint (heap_sz s) + sint count" by (rule k(1))
    have "(2::int) ^ 31 < 2 ^ 32" by simp
    with k(2) cap show "uint (heap_sz s) + sint count < 2 ^ 32" by linarith
  qed
  finally have new: "uint (heap_sz ?s') = uint (heap_sz s) + sint count" .
  have r: "sbrk s count = Some (heap_base s + ucast (heap_sz s), ?s')"
    using sem True by (rule sbrk_success)
  have ok': "region_ok ?s'"
    using ok new k(2) by (simp add: region_ok_def)
  have p: "uint (heap_base s + ucast (heap_sz s)) = uint (heap_base s) + uint (heap_sz s)"
    using len ok True by (rule uint_ptr)
  show ?thesis
    using r ok' p new k(2) by simp
next
  case False
  have "sbrk s count = Some (- 1, s)"
    using ok False by (simp add: region_ok_def sbrk_failure)
  then show ?thesis using ok by simp
qed



lemma sbrk_calls_below_last:
  fixes s :: "'a::len word libc_state"
  assumes len: "32 \<le> LENGTH('a)"
  shows "region_ok s \<Longrightarrow>
    \<exists>rets s'. sbrk_calls s counts = Some (rets, s') \<and> region_ok s' \<and>
      heap_base s' = heap_base s \<and> max_heap_size s' = max_heap_size s \<and>
      (\<forall>g\<in>set (granted counts rets). \<forall>a\<in>byte_range g.
          a < uint (heap_base s) + uint (max_heap_size s) - 1)"
proof (induction counts arbitrary: s)
  case Nil
  then show ?case by (simp add: granted_Nil)
next
  case (Cons c cs)
  from sbrk_step_ok [OF len Cons.prems(1), of c] obtain r s1 where
    r: "sbrk s c = Some (r, s1)" and ok1: "region_ok s1"
    and b1: "heap_base s1 = heap_base s" and m1: "max_heap_size s1 = max_heap_size s"
    and g1: "r \<noteq> - 1 \<longrightarrow> uint r = uint (heap_base s) + uint (heap_sz s) \<and>
              uint (heap_sz s1) = uint (heap_sz s) + sint c \<and>
              uint (heap_sz s1) < uint (max_heap_size s)"
    by blast
  from Cons.IH [OF ok1] obtain rs s2 where
    run: "sbrk_calls s1 cs = Some (rs, s2)" and ok2: "region_ok s2"
    and b2: "heap_base s2 = heap_base s1" and m2: "max_heap_size s2 = max_heap_size s1"
    and in2: "\<forall>g\<in>set (granted cs rs). \<forall>a\<in>byte_range g.
          a < uint (heap_base s1) + uint (max_heap_size s1) - 1"
    by blast
  have run': "sbrk_calls s (c # cs) = Some (r # rs, s2)"
    using r run by simp
  have hd: "r \<noteq> - 1 \<longrightarrow> (\<forall>a\<in>byte_range (r, c). a < uint (heap_base s) + uint (max_heap_size s) - 1)"
    using g1 by (auto simp: byte_range_def)
  show ?case
    using run' ok2 b1 b2 m1 m2 in2 hd by (auto simp: granted_Cons)
qed

lemma sbrk_calls_below_cap:
  fixes s :: "'a::len word libc_state"
  shows "heap_sem s = heap_sem_init \<Longrightarrow> uint (heap_sz s) < uint (max_heap_size s) \<Longrightarrow>
    \<exists>rets s'. sbrk_calls s counts = Some (rets, s') \<and> heap_sem s' = heap_sem_init \<and>
      max_heap_size s' = max_heap_size s \<and> uint (heap_sz s') < uint (max_heap_size s')"
proof (induction counts arbitrary: s)
  case Nil
  then show ?case by simp
next
  case (Cons c cs)
  have "\<exists>r s1. sbrk s c = Some (r, s1) \<and> heap_sem s1 = heap_sem_init \<and>
      max_heap_size s1 = max_heap_size s \<and> uint (heap_sz s1) < uint (max_heap_size s1)"
  proof (cases "ucast (heap_sz s) + c < max_heap_size s")
    case True
    let ?s' = "s\<lparr>heap_sz := ucast (ucast (heap_sz s) + c :: 'a word)\<rparr>"
    have "uint (heap_sz ?s') \<le> uint (ucast (heap_sz s) + c :: 'a word)"
      by (simp add: uint_new_mark_le)
    also have "\<dots> < uint (max_heap_size s)"
      using True by (simp add: word_less_def)
    finally have "uint (heap_sz ?s') < uint (max_heap_size ?s')"
      by simp
    moreover have "sbrk s c = Some (heap_base s + ucast (heap_sz s), ?s')"
      using Cons.prems(1) True by (rule sbrk_success)
    ultimately show ?thesis
      using Cons.prems(1) by simp
  next
    case False
    with Cons.prems(1) have "sbrk s c = Some (- 1, s)"
      by (rule sbrk_failure)
    then show ?thesis
      using Cons.prems by simp
  qed
  then obtain r s1 where r: "sbrk s c = Some (r, s1)" and sem1: "heap_sem s1 = heap_sem_init"
    and m1: "max_heap_size s1 = max_heap_size s" and lt1: "uint (heap_sz s1) < uint (max_heap_size s1)"
    by blast
  from Cons.IH [OF sem1 lt1] obtain rs s2 where
    "sbrk_calls s1 cs = Some (rs, s2)" "heap_sem s2 = heap_sem_init"
    "max_heap_size s2 = max_heap_size s1" "uint (heap_sz s2) < uint (max_heap_size s2)"
    by blast
  then show ?case
    using r m1 by simp
qed

text \<open>On a region of capacity 0 every call of a run fails and the state stays as it was.\<close>

lemma sbrk_calls_empty_region:
  fixes s :: "'a::len word libc_state"
  assumes "heap_sem s = heap_sem_init" and "uint (max_heap_size s) = 0"
  shows "sbrk_calls s counts = Some (replicate (length counts) (- 1), s)"
proof (induction counts)
  case Nil
  show ?case by simp
next
  case (Cons c counts)
  have "max_heap_size s = 0"
    using assms(2) by (simp add: uint_0_iff)
  then have "\<not> ucast (heap_sz s) + c < max_heap_size s"
    by simp
  with assms(1) have "sbrk s c = Some (- 1, s)"
    by (rule sbrk_failure)
  with Cons.IH show ?case
    by simp
qed

lemma region_ok_init:
  fixes base cap :: "'a::len word"
  assumes "uint cap \<le> 2 ^ 31" and "uint base + uint cap \<le> 2 ^ LENGTH('a)"
  shows "region_ok (libc_init base cap)"
  using assms by (simp add: region_ok_def libc_init_def)

section \<open>Interleaved callers and the semaphore\<close>

lemma filter_update_count:
  "t < length xs \<Longrightarrow>
   length (filter P (xs[t := y])) + (if P (xs ! t) then 1 else 0) =
   length (filter P xs) + (if P y then 1 else 0)"
proof (induction xs arbitrary: t)
  case Nil
  then show ?case by simp
next
  case (Cons x xs)
  show ?case
  proof (cases t)
    case 0
    then show ?thesis by simp
  next
    case (Suc n)
    with Cons.prems have "n < length xs" by simp
    from Cons.IH [OF this] show ?thesis using Suc by simp
  qed
qed

lemma holds_le_count:
  "t < length fs \<Longrightarrow> (if P (fs ! t) then 1 else 0) \<le> length (filter P fs)"
proof (cases "P (fs ! t)")
  case True
  assume "t < length fs"
  with True have "fs ! t \<in> set (filter P fs)"
    by simp
  then have "0 < length (filter P fs)"
    by (rule length_pos_if_in_set)
  with True show ?thesis
    by (simp add: Suc_le_eq)
next
  case False
  then show ?thesis
    by simp
qed

text \<open>What one step does to the semaphore, by the line it is taken from.\<close>

lemma sbrk_step_sem:
  assumes "sbrk_step al g f = Some (g', f')"
    and "sem_limit (heap_sem g) = 1"
    and "(if holds_sem f then 1 else 0) + sem_count (heap_sem g) \<le> 1"
  shows "sem_limit (heap_sem g') = 1 \<and>
         (if holds_sem f' then 1 else 0) + sem_count (heap_sem g') =
         (if holds_sem f then 1 else 0) + sem_count (heap_sem g) \<and>
         (sem_count (heap_sem g') < sem_count (heap_sem g) \<longleftrightarrow> at_line f = L364) \<and>
         (sem_count (heap_sem g) < sem_count (heap_sem g') \<longleftrightarrow> at_line f = L380) \<and>
         (at_line f' = L364 \<longleftrightarrow> False) \<and>
         (at_line f' = L382 \<longleftrightarrow> at_line f = L380) \<and> at_line f \<noteq> L382"
  using assms
  by (cases "at_line f")
     (auto simp: sbrk_step_def holds_sem_def sys_sem_take_def sys_sem_give_def
           split: option.splits if_splits)

lemma takes_snoc:
  "takes u (log @ [e]) =
     takes u log + (if ev_caller e = u \<and> ev_sem_after e < ev_sem_before e then 1 else 0)"
  by (simp add: takes_def)

lemma gives_snoc:
  "gives u (log @ [e]) =
     gives u log + (if ev_caller e = u \<and> ev_sem_before e < ev_sem_after e then 1 else 0)"
  by (simp add: gives_def)

lemma lock_inv_step:
  assumes inv: "lock_inv (g, fs, log)" and t: "t < length fs"
    and step: "sbrk_step al g (fs ! t) = Some (g', f')"
  shows "lock_inv (g', fs[t := f'],
            log @ [sbrk_observe t (fs ! t) g g'])"
proof -
  let ?e = "sbrk_observe t (fs ! t) g g'"
  have lim: "sem_limit (heap_sem g) = 1"
    and sum: "length (filter holds_sem fs) + sem_count (heap_sem g) = 1"
    and hist: "\<forall>u<length fs.
            takes u log = (if at_line (fs ! u) = L364 then 0 else 1) \<and>
            gives u log = (if at_line (fs ! u) = L382 then 1 else 0)"
    using inv by (simp_all add: lock_inv_def)
  have le: "(if holds_sem (fs ! t) then 1 else 0) \<le> length (filter holds_sem fs)"
    using t by (rule holds_le_count)
  then have "(if holds_sem (fs ! t) then 1 else 0) + sem_count (heap_sem g) \<le> 1"
    using sum by linarith
  from sbrk_step_sem [OF step lim this]
  have lim': "sem_limit (heap_sem g') = 1"
    and eq: "(if holds_sem f' then 1 else 0) + sem_count (heap_sem g') =
         (if holds_sem (fs ! t) then 1 else 0) + sem_count (heap_sem g)"
    and took: "sem_count (heap_sem g') < sem_count (heap_sem g) \<longleftrightarrow> at_line (fs ! t) = L364"
    and gave: "sem_count (heap_sem g) < sem_count (heap_sem g') \<longleftrightarrow> at_line (fs ! t) = L380"
    and l364: "at_line f' \<noteq> L364"
    and l382: "at_line f' = L382 \<longleftrightarrow> at_line (fs ! t) = L380"
    and live: "at_line (fs ! t) \<noteq> L382"
    by simp_all
  have "length (filter holds_sem (fs[t := f'])) + (if holds_sem (fs ! t) then 1 else 0) =
        length (filter holds_sem fs) + (if holds_sem f' then 1 else 0)"
    using t by (rule filter_update_count)
  with eq sum le have sum': "length (filter holds_sem (fs[t := f'])) + sem_count (heap_sem g') = 1"
    by (auto split: if_splits)
  have hist': "\<forall>u<length (fs[t := f']).
            takes u (log @ [?e]) = (if at_line (fs[t := f'] ! u) = L364 then 0 else 1) \<and>
            gives u (log @ [?e]) = (if at_line (fs[t := f'] ! u) = L382 then 1 else 0)"
  proof (intro allI impI)
    fix u assume u: "u < length (fs[t := f'])"
    then have u': "u < length fs" by simp
    show "takes u (log @ [?e]) = (if at_line (fs[t := f'] ! u) = L364 then 0 else 1) \<and>
          gives u (log @ [?e]) = (if at_line (fs[t := f'] ! u) = L382 then 1 else 0)"
    proof (cases "u = t")
      case False
      then show ?thesis
        using hist u' by (simp add: takes_snoc gives_snoc sbrk_observe_def)
    next
      case True
      have "takes t log = (if at_line (fs ! t) = L364 then 0 else 1)"
        "gives t log = (if at_line (fs ! t) = L382 then 1 else 0)"
        using hist t by simp_all
      then show ?thesis
        using True t took gave l364 l382 live
        by (auto simp: takes_snoc gives_snoc sbrk_observe_def)
    qed
  qed
  from lim' sum' hist' show ?thesis
    by (simp add: lock_inv_def)
qed

lemma lock_inv_schedule:
  "lock_inv st \<Longrightarrow> sbrk_schedule al st sched = Some st' \<Longrightarrow> lock_inv st'"
proof (induction al st sched rule: sbrk_schedule.induct)
  case (1 al st)
  then show ?case by simp
next
  case (2 al g fs log t sched)
  from "2.prems"(2) obtain g' f' where t: "t < length fs"
    and step: "sbrk_step al g (fs ! t) = Some (g', f')"
    and rest: "sbrk_schedule al (g', fs[t := f'],
                 log @ [sbrk_observe t (fs ! t) g g']) sched = Some st'"
    by (auto split: if_splits option.splits)
  from "2.prems"(1) t step have "lock_inv (g', fs[t := f'],
                 log @ [sbrk_observe t (fs ! t) g g'])"
    by (rule lock_inv_step)
  with "2.IH" t step rest show ?case
    by simp
qed

lemma lock_inv_init:
  "heap_sem g = heap_sem_init \<Longrightarrow> \<forall>f\<in>set fs. at_line f = L364 \<Longrightarrow> lock_inv (g, fs, [])"
proof -
  assume g: "heap_sem g = heap_sem_init" and fs: "\<forall>f\<in>set fs. at_line f = L364"
  have "filter holds_sem fs = []"
    using fs by (auto simp: filter_empty_conv holds_sem_def)
  then show ?thesis
    using g fs by (simp add: lock_inv_def heap_sem_init_def takes_def gives_def)
qed

text \<open>
  A step whose effect apart from the mark depends on the mark, or that changes the mark,
  is the statement of line 369, 372 or 373.
\<close>

lemma sbrk_step_touches:
  fixes g :: "'a::len word libc_state"
  assumes "sbrk_step_beside_mark al (g\<lparr>heap_sz := m\<rparr>) f \<noteq> sbrk_step_beside_mark al g f \<or>
           (\<exists>g' f'. sbrk_step al g f = Some (g', f') \<and> heap_sz g' \<noteq> heap_sz g)"
  shows "at_line f \<in> {L369, L372, L373}"
  using assms
  by (cases "at_line f")
     (auto simp: sbrk_step_beside_mark_def sbrk_step_def split: option.splits)

lemma filter_two:
  assumes "t < u" and "u < length xs" and "P (xs ! t)" and "P (xs ! u)"
  shows "2 \<le> length (filter P xs)"
proof -
  have xs: "xs = take u xs @ drop u xs"
    by simp
  have "xs ! t \<in> set (take u xs)"
    using assms(1,2) by (auto simp: in_set_conv_nth intro!: exI [of _ t])
  with assms(3) have "xs ! t \<in> set (filter P (take u xs))"
    by simp
  then have a: "0 < length (filter P (take u xs))"
    by (rule length_pos_if_in_set)
  have "xs ! u \<in> set (drop u xs)"
    using assms(2) by (auto simp: in_set_conv_nth intro!: exI [of _ 0])
  with assms(4) have "xs ! u \<in> set (filter P (drop u xs))"
    by simp
  then have b: "0 < length (filter P (drop u xs))"
    by (rule length_pos_if_in_set)
  have "length (filter P xs) = length (filter P (take u xs)) + length (filter P (drop u xs))"
    by (subst xs) (simp only: filter_append length_append)
  with a b show ?thesis
    by linarith
qed

lemma filter_one_unique:
  assumes "length (filter P xs) \<le> 1" and "t < length xs" and "u < length xs"
    and "P (xs ! t)" and "u \<noteq> t"
  shows "\<not> P (xs ! u)"
proof
  assume u: "P (xs ! u)"
  have "2 \<le> length (filter P xs)"
  proof (cases "t < u")
    case True
    from True assms(3,4) u show ?thesis by (rule filter_two)
  next
    case False
    with assms(5) have "u < t" by simp
    from this assms(2) u assms(4) show ?thesis by (rule filter_two)
  qed
  with assms(1) show False
    by simp
qed

lemma filter_index:
  "length (filter (\<lambda>t. P (xs ! t)) [0..<length xs]) = length (filter P xs)"
proof -
  have "filter P xs = filter P (map (\<lambda>t. xs ! t) [0..<length xs])"
    by (simp add: map_nth)
  also have "length \<dots> = length (filter (\<lambda>t. P (xs ! t)) [0..<length xs])"
    by (simp add: filter_map comp_def)
  finally show ?thesis
    by simp
qed

lemma lock_inv_holder:
  assumes inv: "lock_inv (g, fs, log)" and t: "t < length fs"
  shows "gives t log < takes t log \<longleftrightarrow> holds_sem (fs ! t)"
proof -
  have "takes t log = (if at_line (fs ! t) = L364 then 0 else 1)"
    "gives t log = (if at_line (fs ! t) = L382 then 1 else 0)"
    using inv t by (simp_all add: lock_inv_def)
  then show ?thesis
    by (cases "at_line (fs ! t)") (simp_all add: holds_sem_def)
qed

lemma lock_inv_holders:
  assumes inv: "lock_inv (g, fs, log)"
  shows "length (filter (\<lambda>t. gives t log < takes t log) [0..<length fs]) +
         sem_count (heap_sem g) = 1"
proof -
  have "filter (\<lambda>t. gives t log < takes t log) [0..<length fs] =
        filter (\<lambda>t. holds_sem (fs ! t)) [0..<length fs]"
    using lock_inv_holder [OF inv] by (intro filter_cong) simp_all
  then have "length (filter (\<lambda>t. gives t log < takes t log) [0..<length fs]) =
      length (filter holds_sem fs)"
    by (simp only: filter_index)
  with inv show ?thesis
    by (simp add: lock_inv_def)
qed

text \<open>A caller at a line that reads or writes the mark is the one holder.\<close>

lemma lock_inv_exclusive:
  assumes inv: "lock_inv (g, fs, log)" and t: "t < length fs"
    and l: "at_line (fs ! t) \<in> {L369, L372, L373}"
  shows "takes t log = 1 \<and> gives t log = 0 \<and> sem_count (heap_sem g) = 0 \<and>
         (\<forall>u<length fs. u \<noteq> t \<longrightarrow> takes u log = gives u log)"
proof -
  have one: "length (filter holds_sem fs) + sem_count (heap_sem g) = 1"
    and hist: "\<forall>u<length fs.
            takes u log = (if at_line (fs ! u) = L364 then 0 else 1) \<and>
            gives u log = (if at_line (fs ! u) = L382 then 1 else 0)"
    using inv by (simp_all add: lock_inv_def)
  have h: "holds_sem (fs ! t)"
    using l by (auto simp: holds_sem_def)
  with t have "1 \<le> length (filter holds_sem fs)"
    using holds_le_count [of t fs holds_sem] by simp
  with one have zero: "sem_count (heap_sem g) = 0" and le: "length (filter holds_sem fs) \<le> 1"
    by simp_all
  have tg: "takes t log = 1" "gives t log = 0"
    using hist t l by auto
  have "\<forall>u<length fs. u \<noteq> t \<longrightarrow> takes u log = gives u log"
  proof (intro allI impI)
    fix u assume u: "u < length fs" "u \<noteq> t"
    from le t u(1) h u(2) have "\<not> holds_sem (fs ! u)"
      by (rule filter_one_unique)
    then have "at_line (fs ! u) = L364 \<or> at_line (fs ! u) = L382"
      by (cases "at_line (fs ! u)") (simp_all add: holds_sem_def)
    with hist u(1) show "takes u log = gives u log"
      by auto
  qed
  with tg zero show ?thesis
    by simp
qed

text \<open>Some caller can always move unless all have returned.\<close>

lemma lock_inv_progress:
  assumes inv: "lock_inv (g, fs, log)" and t: "t < length fs" and live: "at_line (fs ! t) \<noteq> L382"
  shows "\<exists>u<length fs. sbrk_step al g (fs ! u) \<noteq> None"
proof (cases "sem_count (heap_sem g) = 0")
  case True
  with inv have "length (filter holds_sem fs) = 1"
    by (simp add: lock_inv_def)
  then have "filter holds_sem fs \<noteq> []"
    by auto
  then obtain f where "f \<in> set fs" "holds_sem f"
    by (auto simp: filter_empty_conv)
  then obtain u where u: "u < length fs" "holds_sem (fs ! u)"
    by (auto simp: in_set_conv_nth)
  then have "sbrk_step al g (fs ! u) \<noteq> None"
    by (cases "at_line (fs ! u)") (auto simp: sbrk_step_def holds_sem_def)
  with u show ?thesis
    by blast
next
  case False
  then have "sbrk_step al g (fs ! t) \<noteq> None"
    using live
    by (cases "at_line (fs ! t)") (auto simp: sbrk_step_def sys_sem_take_def)
  with t show ?thesis
    by blast
qed

lemma sbrk_step_lines_left:
  "sbrk_step al g f = Some (g', f') \<Longrightarrow> lines_left (at_line f') < lines_left (at_line f)"
  by (cases "at_line f") (auto simp: sbrk_step_def split: option.splits)

lemma sum_lines_left_update:
  "t < length fs \<Longrightarrow> lines_left (at_line f') < lines_left (at_line (fs ! t)) \<Longrightarrow>
   (\<Sum>f\<leftarrow>fs[t := f']. lines_left (at_line f)) < (\<Sum>f\<leftarrow>fs. lines_left (at_line f))"
proof (induction fs arbitrary: t)
  case Nil
  then show ?case by simp
next
  case (Cons x xs)
  show ?case
  proof (cases t)
    case 0
    with Cons.prems show ?thesis by simp
  next
    case (Suc n)
    with Cons.prems have "n < length xs" "lines_left (at_line f') < lines_left (at_line (xs ! n))"
      by simp_all
    from Cons.IH [OF this] show ?thesis using Suc by simp
  qed
qed

lemma sbrk_schedule_complete:
  fixes g :: "'a::len word libc_state"
  shows "lock_inv (g, fs, log) \<Longrightarrow>
    \<exists>sched g' fs' log'. sbrk_schedule al (g, fs, log) sched = Some (g', fs', log') \<and>
       (\<forall>f\<in>set fs'. at_line f = L382)"
proof (induction "\<Sum>f\<leftarrow>fs. lines_left (at_line f)" arbitrary: g fs log rule: less_induct)
  case less
  show ?case
  proof (cases "\<forall>f\<in>set fs. at_line f = L382")
    case True
    then have "sbrk_schedule al (g, fs, log) [] = Some (g, fs, log) \<and>
        (\<forall>f\<in>set fs. at_line f = L382)"
      by simp
    then show ?thesis
      by blast
  next
    case False
    then obtain t where t: "t < length fs" "at_line (fs ! t) \<noteq> L382"
      by (auto simp: in_set_conv_nth)
    from lock_inv_progress [OF less.prems t, of al] obtain u g1 f1 where
      u: "u < length fs" and step: "sbrk_step al g (fs ! u) = Some (g1, f1)"
      by auto
    have inv1: "lock_inv (g1, fs[u := f1], log @ [sbrk_observe u (fs ! u) g g1])"
      using less.prems u step by (rule lock_inv_step)
    have "(\<Sum>f\<leftarrow>fs[u := f1]. lines_left (at_line f)) < (\<Sum>f\<leftarrow>fs. lines_left (at_line f))"
      using u sbrk_step_lines_left [OF step] by (rule sum_lines_left_update)
    from less.hyps [OF this inv1] obtain sched g' fs' log' where
      run: "sbrk_schedule al (g1, fs[u := f1], log @ [sbrk_observe u (fs ! u) g g1]) sched =
              Some (g', fs', log')"
      and fin: "\<forall>f\<in>set fs'. at_line f = L382"
      by blast
    have "sbrk_schedule al (g, fs, log) (u # sched) = Some (g', fs', log')"
      using u step run by simp
    with fin show ?thesis
      by blast
  qed
qed

lemma lock_inv_idle:
  "lock_inv (g, fs, log) \<Longrightarrow> \<forall>f\<in>set fs. at_line f = L364 \<or> at_line f = L382 \<Longrightarrow>
   heap_sem g = heap_sem_init"
proof -
  assume inv: "lock_inv (g, fs, log)" and idle: "\<forall>f\<in>set fs. at_line f = L364 \<or> at_line f = L382"
  have "filter holds_sem fs = []"
    using idle by (auto simp: filter_empty_conv holds_sem_def)
  with inv have "sem_limit (heap_sem g) = 1" "sem_count (heap_sem g) = 1"
    by (simp_all add: lock_inv_def)
  then show ?thesis
    by (simp add: heap_sem_init_def)
qed

text \<open>
  Run alone, the steps of one call add up to \<open>sbrk_build\<close>: the statement-by-statement
  reading and the run-to-completion reading of lines 360-383 agree.
\<close>

lemma sbrk_steps_alone:
  fixes s :: "'a::len word libc_state"
  assumes "heap_sem s = heap_sem_init"
  shows "\<exists>ret s' sched f' log. sbrk_build al s count = Some (ret, s') \<and>
          heap_sem s' = heap_sem_init \<and>
          sbrk_schedule al (s, [sbrk_enter count], []) sched = Some (s', [f'], log) \<and>
          at_line f' = L382 \<and> loc_ret f' = ret \<and> takes 0 log = 1 \<and> gives 0 log = 1"
proof -
  have inv: "lock_inv (s, [sbrk_enter count], [])"
    using assms by (intro lock_inv_init) (simp_all add: sbrk_enter_def)
  show ?thesis
  proof (cases "heap_fits al s count")
    case True
    let ?p = "heap_base s + ucast (heap_sz s)"
    let ?f = "\<lparr>at_line = L382, arg_count = count, loc_ptr = ?p, loc_ret = ?p\<rparr>"
    let ?s' = "s\<lparr>heap_sz := ucast (ucast (heap_sz s) + count :: 'a word)\<rparr>"
    obtain log where run: "sbrk_schedule al (s, [sbrk_enter count], []) [0, 0, 0, 0, 0, 0] =
        Some (?s', [?f], log)"
      using assms True by (simp add: sbrk_step_def sbrk_enter_def sem_take_give_init)
    from inv run have "lock_inv (?s', [?f], log)"
      by (rule lock_inv_schedule)
    then have tg: "takes 0 log = 1" "gives 0 log = 1"
      by (simp_all add: lock_inv_def)
    have "sbrk_build al s count = Some (?p, ?s')"
      using assms True by (rule sbrk_build_success)
    moreover have "at_line ?f = L382" "loc_ret ?f = ?p" "heap_sem ?s' = heap_sem_init"
      using assms by simp_all
    ultimately show ?thesis
      using run tg by blast
  next
    case False
    let ?f = "\<lparr>at_line = L382, arg_count = count,
               loc_ptr = heap_base s + ucast (heap_sz s), loc_ret = - 1\<rparr>"
    obtain log where run: "sbrk_schedule al (s, [sbrk_enter count], []) [0, 0, 0, 0, 0] =
        Some (s, [?f], log)"
      using assms False by (simp add: sbrk_step_def sbrk_enter_def sem_take_give_init)
    from inv run have "lock_inv (s, [?f], log)"
      by (rule lock_inv_schedule)
    then have tg: "takes 0 log = 1" "gives 0 log = 1"
      by (simp_all add: lock_inv_def)
    have "sbrk_build al s count = Some (- 1, s)"
      using assms False by (rule sbrk_build_failure)
    moreover have "at_line ?f = L382" "loc_ret ?f = - 1"
      by simp_all
    ultimately show ?thesis
      using assms run tg by blast
  qed
qed

lemma sbrk_step_blocks:
  "sem_count (heap_sem g) = 0 \<Longrightarrow> at_line f = L364 \<Longrightarrow> sbrk_step al g f = None"
  by (simp add: sbrk_step_def sys_sem_take_def)

lemma sbrk_step_event:
  assumes "sbrk_step al g f = Some (g', f')"
  shows "event_ok (sbrk_observe t f g g')"
  using assms
  by (cases "at_line f")
     (auto simp: sbrk_step_def sys_sem_take_def sys_sem_give_def event_ok_def sbrk_observe_def
           split: option.splits if_splits)

lemma sbrk_schedule_log:
  "sbrk_schedule al st sched = Some st' \<Longrightarrow> \<forall>e\<in>set (snd (snd st)). event_ok e \<Longrightarrow>
   \<forall>e\<in>set (snd (snd st')). event_ok e"
proof (induction al st sched rule: sbrk_schedule.induct)
  case (1 al st)
  then show ?case by simp
next
  case (2 al g fs log t sched)
  from "2.prems"(1) obtain g' f' where t: "t < length fs"
    and step: "sbrk_step al g (fs ! t) = Some (g', f')"
    and rest: "sbrk_schedule al (g', fs[t := f'], log @ [sbrk_observe t (fs ! t) g g']) sched =
                 Some st'"
    by (auto split: if_splits option.splits)
  have "\<forall>e\<in>set (snd (snd (g', fs[t := f'], log @ [sbrk_observe t (fs ! t) g g']))). event_ok e"
    using "2.prems"(2) sbrk_step_event [OF step] by simp
  with "2.IH" t step rest show ?case
    by simp
qed

section \<open>The loops of the console hooks\<close>

lemma drop_take_step:
  assumes "0 \<le> i" and "i < nbytes" and "nbytes \<le> int (length buf)"
  shows "drop (nat i) (take (nat nbytes) buf) =
           buf ! nat i # drop (nat (i + 1)) (take (nat nbytes) buf)"
proof -
  have len: "nat i < length (take (nat nbytes) buf)"
    using assms by simp
  have suc: "nat (i + 1) = Suc (nat i)"
    using assms(1) by simp
  have "drop (nat i) (take (nat nbytes) buf) =
          take (nat nbytes) buf ! nat i # drop (Suc (nat i)) (take (nat nbytes) buf)"
    using len by (rule Cons_nth_drop_Suc [symmetric])
  moreover have "take (nat nbytes) buf ! nat i = buf ! nat i"
    using assms by simp
  ultimately show ?thesis
    by (simp only: suc)
qed

lemma write_stdout_loop_eq:
  "0 \<le> i \<Longrightarrow> i \<le> nbytes \<Longrightarrow> nbytes \<le> int (length buf) \<Longrightarrow>
   write_stdout_loop buf nbytes i out =
     Some (out @ concat (map (\<lambda>c. if c = 0x0A then [0x0D, c] else [c])
                          (drop (nat i) (take (nat nbytes) buf))))"
proof (induction buf nbytes i out rule: write_stdout_loop.induct)
  case (1 buf nbytes i out)
  let ?f = "\<lambda>c :: byte. if c = 0x0A then [0x0D, c] else [c]"
  show ?case
  proof (cases "i < nbytes")
    case True
    have nb: "\<not> (i < 0 \<or> int (length buf) \<le> i)"
      using True "1.prems" by simp
    define out1 where "out1 = (if buf ! nat i = 0x0A then putchar 0x0D out else out)"
    have step: "write_stdout_loop buf nbytes i out =
        write_stdout_loop buf nbytes (i + 1) (putchar (buf ! nat i) out1)"
      using True nb by (subst write_stdout_loop.simps) (simp add: out1_def)
    have "write_stdout_loop buf nbytes (i + 1) (putchar (buf ! nat i) out1) =
        Some (putchar (buf ! nat i) out1 @
              concat (map ?f (drop (nat (i + 1)) (take (nat nbytes) buf))))"
      using True "1.prems" by (intro "1.IH" [OF True nb out1_def]) simp_all
    moreover have "drop (nat i) (take (nat nbytes) buf) =
        buf ! nat i # drop (nat (i + 1)) (take (nat nbytes) buf)"
      using "1.prems"(1) True "1.prems"(3) by (rule drop_take_step)
    moreover have "putchar (buf ! nat i) out1 = out @ ?f (buf ! nat i)"
      by (simp add: out1_def putchar_def)
    ultimately show ?thesis
      by (simp only: step concat.simps list.map append_assoc)
  next
    case False
    then have "i = nbytes"
      using "1.prems" by simp
    then show ?thesis
      by (subst write_stdout_loop.simps) simp
  qed
qed


lemma getchar_rest: "getchar inp = (c, inp1) \<Longrightarrow> inp1 = drop 1 inp \<and> c = fst (getchar (drop 0 inp))"
  by (cases inp) auto

lemma read_stdin_loop_spec:
  "0 \<le> i \<Longrightarrow> i \<le> nbytes \<Longrightarrow> nbytes \<le> int (length buf) \<Longrightarrow>
   \<exists>r buf' inp'. read_stdin_loop buf nbytes i inp = Some (r, buf', inp') \<and>
      i \<le> r \<and> r \<le> nbytes \<and> length buf' = length buf \<and>
      inp' = drop (nat (r - i)) inp \<and>
      (\<forall>j. i \<le> j \<and> j < r \<longrightarrow>
           buf' ! nat j = word_of_int (fst (getchar (drop (nat (j - i)) inp)))) \<and>
      (\<forall>j. 0 \<le> j \<and> j < i \<longrightarrow> buf' ! nat j = buf ! nat j) \<and>
      (\<forall>j. i \<le> j \<and> j < r - 1 \<longrightarrow> buf' ! nat j \<noteq> 0x0A \<and> buf' ! nat j \<noteq> 0x0D) \<and>
      (r < nbytes \<longrightarrow> i < r \<and> (buf' ! nat (r - 1) = 0x0A \<or> buf' ! nat (r - 1) = 0x0D))"
proof (induction buf nbytes i inp rule: read_stdin_loop.induct)
  case (1 buf nbytes i inp)
  show ?case
  proof (cases "i < nbytes")
    case False
    then have "i = nbytes"
      using "1.prems" by simp
    then have "read_stdin_loop buf nbytes i inp = Some (i, buf, inp)"
      by (subst read_stdin_loop.simps) simp
    then show ?thesis
      using \<open>i = nbytes\<close> by auto
  next
    case True
    have nb: "\<not> (i < 0 \<or> int (length buf) \<le> i)"
      using True "1.prems" by simp
    obtain c inp1 where gc: "getchar inp = (c, inp1)"
      by (cases "getchar inp")
    then have inp1: "inp1 = drop 1 inp" and c: "c = fst (getchar (drop 0 inp))"
      using getchar_rest by blast+
    define buf1 where "buf1 = buf[nat i := (word_of_int c :: byte)]"
    have len1: "length buf1 = length buf"
      by (simp add: buf1_def)
    have ni: "nat i < length buf"
      using nb by linarith
    have at: "buf1 ! nat i = word_of_int c"
      using ni by (simp add: buf1_def)
    have old: "buf1 ! nat j = buf ! nat j" if "0 \<le> j" "j < i" for j
    proof -
      have "nat i \<noteq> nat j"
        using that by linarith
      then show ?thesis
        by (simp add: buf1_def)
    qed
    show ?thesis
    proof (cases "buf1 ! nat i = 0x0A \<or> buf1 ! nat i = 0x0D")
      case eol: True
      have res: "read_stdin_loop buf nbytes i inp = Some (i + 1, buf1, inp1)"
        using True nb gc eol by (subst read_stdin_loop.simps) (simp add: buf1_def)
      have "\<forall>j. i \<le> j \<and> j < i + 1 \<longrightarrow>
           buf1 ! nat j = word_of_int (fst (getchar (drop (nat (j - i)) inp)))"
      proof (intro allI impI)
        fix j assume "i \<le> j \<and> j < i + 1"
        then have "j = i" by simp
        then show "buf1 ! nat j = word_of_int (fst (getchar (drop (nat (j - i)) inp)))"
          using at c by simp
      qed
      moreover have "\<forall>j. 0 \<le> j \<and> j < i \<longrightarrow> buf1 ! nat j = buf ! nat j"
        using old by simp
      moreover have "\<forall>j. i \<le> j \<and> j < i + 1 - 1 \<longrightarrow> buf1 ! nat j \<noteq> 0x0A \<and> buf1 ! nat j \<noteq> 0x0D"
        by auto
      moreover have "inp1 = drop (nat (i + 1 - i)) inp"
        using inp1 by simp
      moreover have "buf1 ! nat (i + 1 - 1) = 0x0A \<or> buf1 ! nat (i + 1 - 1) = 0x0D"
        using eol by simp
      moreover have "i \<le> i + 1" "i + 1 \<le> nbytes" "i < i + 1"
        using True by simp_all
      ultimately show ?thesis
        using res len1 by blast
    next
      case no_eol: False
      have res: "read_stdin_loop buf nbytes i inp = read_stdin_loop buf1 nbytes (i + 1) inp1"
        using True nb gc no_eol by (subst read_stdin_loop.simps) (simp add: buf1_def)
      have "\<exists>r buf' inp'. read_stdin_loop buf1 nbytes (i + 1) inp1 = Some (r, buf', inp') \<and>
          i + 1 \<le> r \<and> r \<le> nbytes \<and> length buf' = length buf1 \<and>
          inp' = drop (nat (r - (i + 1))) inp1 \<and>
          (\<forall>j. i + 1 \<le> j \<and> j < r \<longrightarrow>
             buf' ! nat j = word_of_int (fst (getchar (drop (nat (j - (i + 1))) inp1)))) \<and>
          (\<forall>j. 0 \<le> j \<and> j < i + 1 \<longrightarrow> buf' ! nat j = buf1 ! nat j) \<and>
          (\<forall>j. i + 1 \<le> j \<and> j < r - 1 \<longrightarrow> buf' ! nat j \<noteq> 0x0A \<and> buf' ! nat j \<noteq> 0x0D) \<and>
          (r < nbytes \<longrightarrow> i + 1 < r \<and> (buf' ! nat (r - 1) = 0x0A \<or> buf' ! nat (r - 1) = 0x0D))"
        using True "1.prems" len1 no_eol
        by (intro "1.IH" [OF True nb gc [symmetric] refl buf1_def]) simp_all
      then obtain r buf' inp' where
        run: "read_stdin_loop buf1 nbytes (i + 1) inp1 = Some (r, buf', inp')"
        and r: "i + 1 \<le> r" "r \<le> nbytes" and len': "length buf' = length buf1"
        and rest: "inp' = drop (nat (r - (i + 1))) inp1"
        and new: "\<forall>j. i + 1 \<le> j \<and> j < r \<longrightarrow>
             buf' ! nat j = word_of_int (fst (getchar (drop (nat (j - (i + 1))) inp1)))"
        and keep: "\<forall>j. 0 \<le> j \<and> j < i + 1 \<longrightarrow> buf' ! nat j = buf1 ! nat j"
        and mid: "\<forall>j. i + 1 \<le> j \<and> j < r - 1 \<longrightarrow> buf' ! nat j \<noteq> 0x0A \<and> buf' ! nat j \<noteq> 0x0D"
        and last: "r < nbytes \<longrightarrow> i + 1 < r \<and> (buf' ! nat (r - 1) = 0x0A \<or> buf' ! nat (r - 1) = 0x0D)"
        by blast
      have here: "buf' ! nat i = word_of_int c"
        using keep "1.prems"(1) at by simp
      have shift: "drop (nat (j - (i + 1))) inp1 = drop (nat (j - i)) inp" if "i + 1 \<le> j" for j
      proof -
        have "nat (j - i) = nat (j - (i + 1)) + 1"
          using that by simp
        then show ?thesis
          by (simp add: inp1)
      qed
      have p3: "inp' = drop (nat (r - i)) inp"
        using rest shift [OF r(1)] by simp
      have p4: "\<forall>j. i \<le> j \<and> j < r \<longrightarrow>
           buf' ! nat j = word_of_int (fst (getchar (drop (nat (j - i)) inp)))"
      proof (intro allI impI)
        fix j assume j: "i \<le> j \<and> j < r"
        show "buf' ! nat j = word_of_int (fst (getchar (drop (nat (j - i)) inp)))"
        proof (cases "j = i")
          case True
          then show ?thesis using here c by simp
        next
          case False
          with j have "i + 1 \<le> j" by simp
          then show ?thesis using new j shift by simp
        qed
      qed
      have p5: "\<forall>j. 0 \<le> j \<and> j < i \<longrightarrow> buf' ! nat j = buf ! nat j"
        using keep old by simp
      have p6: "\<forall>j. i \<le> j \<and> j < r - 1 \<longrightarrow> buf' ! nat j \<noteq> 0x0A \<and> buf' ! nat j \<noteq> 0x0D"
      proof (intro allI impI)
        fix j assume j: "i \<le> j \<and> j < r - 1"
        show "buf' ! nat j \<noteq> 0x0A \<and> buf' ! nat j \<noteq> 0x0D"
        proof (cases "j = i")
          case True
          then show ?thesis using here at no_eol by simp
        next
          case False
          with j have "i + 1 \<le> j \<and> j < r - 1" by simp
          then show ?thesis using mid by blast
        qed
      qed
      have p7: "r < nbytes \<longrightarrow> i < r \<and> (buf' ! nat (r - 1) = 0x0A \<or> buf' ! nat (r - 1) = 0x0D)"
        using last by auto
      have p1: "i \<le> r"
        using r(1) by simp
      have len2: "length buf' = length buf"
        using len' len1 by simp
      have run2: "read_stdin_loop buf nbytes i inp = Some (r, buf', inp')"
        using res run by simp
      show ?thesis
        using run2 p1 r(2) len2 p3 p4 p5 p6 p7 by blast
    qed
  qed
qed

section \<open>Single calls\<close>

text \<open>
  C1 (amended). The boundary check is strict, in every build: for a call made with the
  semaphore available, whenever the integer sum of the mark and the signed request
  equals the capacity, the call fails, returning
  \<open>(void *)-1\<close> and leaving the state as it was; whenever that sum lies in
  \<open>[0, capacity)\<close>, the call succeeds, returning the address of the old mark and
  advancing the mark by the request. With the aligned heap the capacity is an \<open>int\<close>
  constant, hence below \<open>2 ^ 31\<close>.
\<close>

theorem sbrk_strict_boundary:
  fixes s :: "'a::len word libc_state"
  assumes "32 \<le> LENGTH('a)" and "heap_sem s = heap_sem_init"
    and "aligned_heap \<longrightarrow> uint (max_heap_size s) < 2 ^ 31"
  shows "(uint (heap_sz s) + sint count = uint (max_heap_size s) \<longrightarrow>
            sbrk_build aligned_heap s count = Some (- 1, s)) \<and>
         (0 \<le> uint (heap_sz s) + sint count \<and>
          uint (heap_sz s) + sint count < uint (max_heap_size s) \<longrightarrow>
            sbrk_build aligned_heap s count =
              Some (heap_base s + ucast (heap_sz s), s\<lparr>heap_sz := heap_sz s + ucast count\<rparr>))"
proof (intro conjI impI)
  have cap: "aligned_heap \<longrightarrow> uint (max_heap_size s) \<le> 2 ^ 31"
    using assms(3) by auto
  {
    assume "uint (heap_sz s) + sint count = uint (max_heap_size s)"
    with assms(1) cap have "\<not> heap_fits aligned_heap s count"
      by (rule heap_fits_exact_fit)
    with assms(2) show "sbrk_build aligned_heap s count = Some (- 1, s)"
      by (rule sbrk_build_failure)
  next
    assume "0 \<le> uint (heap_sz s) + sint count \<and>
            uint (heap_sz s) + sint count < uint (max_heap_size s)"
    then have "heap_fits aligned_heap s count"
      using assms(1) cap by (intro heap_fits_in_range) simp_all
    with assms(2) show "sbrk_build aligned_heap s count =
        Some (heap_base s + ucast (heap_sz s), s\<lparr>heap_sz := heap_sz s + ucast count\<rparr>)"
      by (simp add: sbrk_build_success ucast_sbrk_sum [OF assms(1)])
  }
qed

text \<open>
  The scenario of the claim (capacity 100, mark 60) in a build that compares unsigned,
  and the like on an LP64 build with an aligned heap of 128 bytes.
\<close>

theorem sbrk_strict_boundary_witness:
  "sbrk_build False \<lparr>heap_base = 0x20001000 :: 32 word, max_heap_size = 100, heap_sz = 60,
          heap_sem = heap_sem_init\<rparr> 40
     = Some (- 1, \<lparr>heap_base = 0x20001000, max_heap_size = 100, heap_sz = 60,
                  heap_sem = heap_sem_init\<rparr>) \<and>
   sbrk_build False \<lparr>heap_base = 0x20001000 :: 32 word, max_heap_size = 100, heap_sz = 60,
          heap_sem = heap_sem_init\<rparr> 39
     = Some (0x2000103C, \<lparr>heap_base = 0x20001000, max_heap_size = 100, heap_sz = 99,
                  heap_sem = heap_sem_init\<rparr>) \<and>
   sbrk_build True \<lparr>heap_base = 0x80001000 :: 64 word, max_heap_size = 128, heap_sz = 60,
          heap_sem = heap_sem_init\<rparr> 68
     = Some (- 1, \<lparr>heap_base = 0x80001000, max_heap_size = 128, heap_sz = 60,
                  heap_sem = heap_sem_init\<rparr>) \<and>
   sbrk_build True \<lparr>heap_base = 0x80001000 :: 64 word, max_heap_size = 128, heap_sz = 60,
          heap_sem = heap_sem_init\<rparr> 67
     = Some (0x8000103C, \<lparr>heap_base = 0x80001000, max_heap_size = 128, heap_sz = 127,
                  heap_sem = heap_sem_init\<rparr>)"
  using sbrk_strict_boundary [where 'a = 32 and count = 40 and aligned_heap = False and
          s = "\<lparr>heap_base = 0x20001000, max_heap_size = 100, heap_sz = 60,
                heap_sem = heap_sem_init\<rparr>"]
        sbrk_strict_boundary [where 'a = 32 and count = 39 and aligned_heap = False and
          s = "\<lparr>heap_base = 0x20001000, max_heap_size = 100, heap_sz = 60,
                heap_sem = heap_sem_init\<rparr>"]
        sbrk_strict_boundary [where 'a = 64 and count = 68 and aligned_heap = True and
          s = "\<lparr>heap_base = 0x80001000, max_heap_size = 128, heap_sz = 60,
                heap_sem = heap_sem_init\<rparr>"]
        sbrk_strict_boundary [where 'a = 64 and count = 67 and aligned_heap = True and
          s = "\<lparr>heap_base = 0x80001000, max_heap_size = 128, heap_sz = 60,
                heap_sem = heap_sem_init\<rparr>"]
  by simp

text \<open>
  The claim as first stated also promises success for every sum below the capacity. A
  shrink request larger than the mark has such a sum (here \<open>10 - 20 < 100\<close>), and in a
  build that compares unsigned it fails.
\<close>

theorem sbrk_negative_sum_counterexample:
  "uint (heap_sz \<lparr>heap_base = 0x20001000 :: 32 word, max_heap_size = 100, heap_sz = 10,
                  heap_sem = heap_sem_init\<rparr>) + sint (- 20 :: 32 word)
     < uint (max_heap_size \<lparr>heap_base = 0x20001000 :: 32 word, max_heap_size = 100,
                  heap_sz = 10, heap_sem = heap_sem_init\<rparr>) \<and>
   sbrk \<lparr>heap_base = 0x20001000 :: 32 word, max_heap_size = 100, heap_sz = 10,
          heap_sem = heap_sem_init\<rparr> (- 20)
     = Some (- 1, \<lparr>heap_base = 0x20001000, max_heap_size = 100, heap_sz = 10,
                  heap_sem = heap_sem_init\<rparr>)"
  by (simp add: sbrk_eq sem_take_give_init)





text \<open>
  C4. On an LP64 build with the aligned heap, on a region of 128 bytes with the mark at
  10, \<open>_sbrk(-20)\<close> passes the signed test of line 372 (\<open>-10 < 128\<close>): it returns the
  address of the old mark and stores \<open>0xFFFFFFF6\<close> as the new mark. The mark was within
  the capacity before the call and is above it after. The same call on an LP64 build
  without the aligned heap, and on an ILP32 build with it, is rejected and leaves the
  mark at 10.
\<close>

theorem sbrk_aligned_lp64_shrink_below_zero:
  "sbrk_build True \<lparr>heap_base = 0x80001000 :: 64 word, max_heap_size = 128, heap_sz = 10,
                     heap_sem = heap_sem_init\<rparr> (- 20)
     = Some (0x8000100A, \<lparr>heap_base = 0x80001000, max_heap_size = 128, heap_sz = 0xFFFFFFF6,
                            heap_sem = heap_sem_init\<rparr>) \<and>
   uint (10 :: 32 word) \<le> uint (128 :: 64 word) \<and>
   uint (128 :: 64 word) < uint (0xFFFFFFF6 :: 32 word) \<and>
   sbrk_build False \<lparr>heap_base = 0x80001000 :: 64 word, max_heap_size = 128, heap_sz = 10,
                     heap_sem = heap_sem_init\<rparr> (- 20)
     = Some (- 1, \<lparr>heap_base = 0x80001000, max_heap_size = 128, heap_sz = 10,
                   heap_sem = heap_sem_init\<rparr>) \<and>
   sbrk_build True \<lparr>heap_base = 0x20001000 :: 32 word, max_heap_size = 128, heap_sz = 10,
                     heap_sem = heap_sem_init\<rparr> (- 20)
     = Some (- 1, \<lparr>heap_base = 0x20001000, max_heap_size = 128, heap_sz = 10,
                   heap_sem = heap_sem_init\<rparr>)"
  by (simp add: sbrk_build_def heap_fits_def sem_take_give_init)



text \<open>
  C7 (amended). The mark starts at 0. For a call made with the semaphore available on a
  region of at most \<open>2 ^ 31\<close> bytes whose mark is within the capacity (and, where
  line 372 compares signed, for a request whose sum
  with the mark is within the range of \<open>intptr_t\<close>): a call with a non-negative request
  returns and leaves the mark at least where it was; a call with a negative request
  that the mark can absorb succeeds, returns the address of the old mark, and lowers
  the mark by the size of the request.
\<close>

theorem sbrk_grow_monotone:
  fixes s :: "'a::len word libc_state" and base cap :: "'a word"
  assumes "32 \<le> LENGTH('a)" and "heap_sem s = heap_sem_init"
    and "uint (heap_sz s) \<le> uint (max_heap_size s)" and "uint (max_heap_size s) \<le> 2 ^ 31"
    and "aligned_heap \<and> 32 < LENGTH('a) \<longrightarrow>
           uint (heap_sz s) + sint count < 2 ^ (LENGTH('a) - 1)"
  shows "heap_sz (libc_init base cap) = 0 \<and>
         (0 \<le> sint count \<longrightarrow>
            (\<exists>ret s'. sbrk_build aligned_heap s count = Some (ret, s') \<and>
                       uint (heap_sz s) \<le> uint (heap_sz s'))) \<and>
         (sint count < 0 \<and> 0 \<le> uint (heap_sz s) + sint count \<longrightarrow>
            (\<exists>s'. sbrk_build aligned_heap s count = Some (heap_base s + ucast (heap_sz s), s') \<and>
                  uint (heap_sz s') = uint (heap_sz s) + sint count \<and>
                  uint (heap_sz s') < uint (heap_sz s)))"
proof (intro conjI impI)
  let ?k = "uint (heap_sz s) + sint count"
  let ?s' = "s\<lparr>heap_sz := ucast (ucast (heap_sz s) + count :: 'a word)\<rparr>"
  have new: "uint (heap_sz ?s') = ?k" if k: "0 \<le> ?k" "?k < uint (max_heap_size s)"
  proof -
    have "uint (heap_sz ?s') = ?k mod 2 ^ 32"
      using uint_new_mark_mod [OF assms(1), of "heap_sz s" count] by simp
    also have "\<dots> = ?k"
    proof (rule mod_pos_pos_trivial)
      show "0 \<le> ?k"
        by (rule k(1))
      have "(2::int) ^ 31 < 2 ^ 32"
        by simp
      with k(2) assms(4) show "?k < 2 ^ 32"
        by linarith
    qed
    finally show ?thesis .
  qed
  show "heap_sz (libc_init base cap) = 0"
    by (simp add: libc_init_def)
  {
    assume grow: "0 \<le> sint count"
    show "\<exists>ret s'. sbrk_build aligned_heap s count = Some (ret, s') \<and>
        uint (heap_sz s) \<le> uint (heap_sz s')"
    proof (cases "heap_fits aligned_heap s count")
      case True
      with assms(1,3,4,5) have lt: "?k < uint (max_heap_size s)"
        by (rule heap_fits_below)
      have "0 \<le> uint (heap_sz s)"
        by simp
      with grow have "0 \<le> ?k"
        by linarith
      from new [OF this lt] grow have "uint (heap_sz s) \<le> uint (heap_sz ?s')"
        by linarith
      moreover have "sbrk_build aligned_heap s count = Some (heap_base s + ucast (heap_sz s), ?s')"
        using assms(2) True by (rule sbrk_build_success)
      ultimately show ?thesis
        by blast
    next
      case False
      with assms(2) have "sbrk_build aligned_heap s count = Some (- 1, s)"
        by (rule sbrk_build_failure)
      then show ?thesis
        by simp
    qed
  next
    assume shrink: "sint count < 0 \<and> 0 \<le> ?k"
    then have lt: "?k < uint (max_heap_size s)"
      using assms(3) by linarith
    have cap: "aligned_heap \<longrightarrow> uint (max_heap_size s) \<le> 2 ^ 31"
      using assms(4) by simp
    have "heap_fits aligned_heap s count"
      using assms(1) cap shrink lt by (intro heap_fits_in_range) simp_all
    with assms(2) have "sbrk_build aligned_heap s count =
        Some (heap_base s + ucast (heap_sz s), ?s')"
      by (rule sbrk_build_success)
    moreover have "uint (heap_sz ?s') = ?k"
      using shrink lt by (intro new) simp_all
    moreover from this shrink have "uint (heap_sz ?s') < uint (heap_sz s)"
      by linarith
    ultimately show "\<exists>s'. sbrk_build aligned_heap s count =
          Some (heap_base s + ucast (heap_sz s), s') \<and>
        uint (heap_sz s') = ?k \<and> uint (heap_sz s') < uint (heap_sz s)"
      by blast
  }
qed

text \<open>
  A region of 100 bytes with the mark at 10: a request of 7 leaves the mark at least
  at 10, a request of -5 lowers it to 5; and a request of 7 on an LP64 build with an
  aligned heap of 128 bytes.
\<close>

theorem sbrk_grow_monotone_witness:
  "(\<exists>ret s'. sbrk_build False \<lparr>heap_base = 0x20001000 :: 32 word, max_heap_size = 100,
                   heap_sz = 10, heap_sem = heap_sem_init\<rparr> 7 = Some (ret, s') \<and>
      uint (10 :: 32 word) \<le> uint (heap_sz s')) \<and>
   (\<exists>s'. sbrk_build False \<lparr>heap_base = 0x20001000 :: 32 word, max_heap_size = 100,
                   heap_sz = 10, heap_sem = heap_sem_init\<rparr> (- 5) = Some (0x2000100A, s') \<and>
      uint (heap_sz s') = 5 \<and> uint (heap_sz s') < uint (10 :: 32 word)) \<and>
   (\<exists>ret s'. sbrk_build True \<lparr>heap_base = 0x80001000 :: 64 word, max_heap_size = 128,
                   heap_sz = 10, heap_sem = heap_sem_init\<rparr> 7 = Some (ret, s') \<and>
      uint (10 :: 32 word) \<le> uint (heap_sz s'))"
  using sbrk_grow_monotone [where 'a = 32 and count = 7 and base = 0 and cap = 0 and
          aligned_heap = False and
          s = "\<lparr>heap_base = 0x20001000, max_heap_size = 100, heap_sz = 10,
                heap_sem = heap_sem_init\<rparr>"]
        sbrk_grow_monotone [where 'a = 32 and count = "- 5" and base = 0 and cap = 0 and
          aligned_heap = False and
          s = "\<lparr>heap_base = 0x20001000, max_heap_size = 100, heap_sz = 10,
                heap_sem = heap_sem_init\<rparr>"]
        sbrk_grow_monotone [where 'a = 64 and count = 7 and base = 0 and cap = 0 and
          aligned_heap = True and
          s = "\<lparr>heap_base = 0x80001000, max_heap_size = 128, heap_sz = 10,
                heap_sem = heap_sem_init\<rparr>"]
  by simp

text \<open>
  The claim as first stated covers every call. A shrink request that the mark can
  absorb succeeds and lowers the mark (here from 10 to 5).
\<close>

theorem sbrk_shrink_counterexample:
  "sbrk \<lparr>heap_base = 0x20001000 :: 32 word, max_heap_size = 100, heap_sz = 10,
          heap_sem = heap_sem_init\<rparr> (- 5)
     = Some (0x2000100A, \<lparr>heap_base = 0x20001000, max_heap_size = 100, heap_sz = 5,
                  heap_sem = heap_sem_init\<rparr>) \<and>
   \<not> uint (10 :: 32 word) \<le> uint (5 :: 32 word)"
  by (simp add: sbrk_eq sem_take_give_init)

section \<open>Sequences of calls\<close>




text \<open>
  C9 (amended). In a build where line 372 compares unsigned (every build but LP64 with
  the aligned heap): a call that takes the success path leaves the mark strictly below
  the capacity. Hence, on a fresh region of positive capacity, every sequence of calls
  (of any signed sizes) returns and ends with the mark strictly below the capacity, so
  the mark never equals the capacity; and, the region being inside the address space
  and of at most \<open>2 ^ 31\<close> bytes, the last byte \<open>base + capacity - 1\<close> lies in no range
  handed out by a successful call. On a fresh region of capacity 0 every call of a
  sequence returns \<open>(void *)-1\<close> and the state stays the initial one, with the mark, 0,
  equal to the capacity.
\<close>

theorem sbrk_never_reaches_capacity:
  fixes s :: "'a::len word libc_state" and base cap :: "'a word"
  shows "(heap_sem s = heap_sem_init \<and> ucast (heap_sz s) + count < max_heap_size s \<longrightarrow>
            (\<exists>ret s'. sbrk s count = Some (ret, s') \<and>
                       uint (heap_sz s') < uint (max_heap_size s'))) \<and>
         (0 < uint cap \<longrightarrow>
            (\<exists>rets s'. sbrk_calls (libc_init base cap) counts = Some (rets, s') \<and>
               uint (heap_sz s') < uint cap \<and>
               (32 \<le> LENGTH('a) \<and> uint cap \<le> 2 ^ 31 \<and>
                uint base + uint cap \<le> 2 ^ LENGTH('a) \<longrightarrow>
                  (\<forall>g\<in>set (granted counts rets).
                      uint base + uint cap - 1 \<notin> byte_range g)))) \<and>
         (uint cap = 0 \<longrightarrow>
            sbrk_calls (libc_init base cap) counts =
              Some (replicate (length counts) (- 1), libc_init base cap))"
proof (intro conjI impI)
  assume "uint cap = 0"
  then show "sbrk_calls (libc_init base cap) counts =
      Some (replicate (length counts) (- 1), libc_init base cap)"
    by (intro sbrk_calls_empty_region) (simp_all add: libc_init_def)
next
  assume a: "heap_sem s = heap_sem_init \<and> ucast (heap_sz s) + count < max_heap_size s"
  let ?s' = "s\<lparr>heap_sz := ucast (ucast (heap_sz s) + count :: 'a word)\<rparr>"
  have "uint (heap_sz ?s') \<le> uint (ucast (heap_sz s) + count :: 'a word)"
    by (simp add: uint_new_mark_le)
  also have "\<dots> < uint (max_heap_size s)"
    using a by (simp add: word_less_def)
  finally have "uint (heap_sz ?s') < uint (max_heap_size ?s')"
    by simp
  moreover have "sbrk s count = Some (heap_base s + ucast (heap_sz s), ?s')"
    using a by (simp add: sbrk_success)
  ultimately show "\<exists>ret s'. sbrk s count = Some (ret, s') \<and>
      uint (heap_sz s') < uint (max_heap_size s')"
    by blast
next
  assume pos: "0 < uint cap"
  let ?s = "libc_init base cap"
  have "heap_sem ?s = heap_sem_init" "uint (heap_sz ?s) < uint (max_heap_size ?s)"
    using pos by (simp_all add: libc_init_def)
  from sbrk_calls_below_cap [OF this, of counts] obtain rets s' where
    run: "sbrk_calls ?s counts = Some (rets, s')"
    and m: "max_heap_size s' = max_heap_size ?s"
    and lt: "uint (heap_sz s') < uint (max_heap_size s')"
    by blast
  have lt': "uint (heap_sz s') < uint cap"
    using lt m by (simp add: libc_init_def)
  have "\<forall>g\<in>set (granted counts rets). uint base + uint cap - 1 \<notin> byte_range g"
    if wf: "32 \<le> LENGTH('a) \<and> uint cap \<le> 2 ^ 31 \<and> uint base + uint cap \<le> 2 ^ LENGTH('a)"
  proof -
    have ok: "region_ok ?s"
      using wf by (intro region_ok_init) simp_all
    from sbrk_calls_below_last [OF _ ok, of counts] wf obtain rets2 s2 where
      run2: "sbrk_calls ?s counts = Some (rets2, s2)"
      and below: "\<forall>g\<in>set (granted counts rets2). \<forall>a\<in>byte_range g.
          a < uint (heap_base ?s) + uint (max_heap_size ?s) - 1"
      by blast
    from run run2 have "rets2 = rets"
      by simp
    with below show ?thesis
      by (fastforce simp: libc_init_def)
  qed
  with run lt' show "\<exists>rets s'. sbrk_calls ?s counts = Some (rets, s') \<and>
      uint (heap_sz s') < uint cap \<and>
      (32 \<le> LENGTH('a) \<and> uint cap \<le> 2 ^ 31 \<and> uint base + uint cap \<le> 2 ^ LENGTH('a) \<longrightarrow>
        (\<forall>g\<in>set (granted counts rets). uint base + uint cap - 1 \<notin> byte_range g))"
    by blast
qed

text \<open>
  A region of 100 bytes: a request of 39 at mark 60 succeeds and leaves the mark at 99;
  a run that fills the region up to its last byte but one, shrinks and grows again
  never hands out the byte at \<open>base + 99\<close>. On a region of capacity 0 three requests
  all fail.
\<close>

theorem sbrk_never_reaches_capacity_witness:
  "(\<exists>ret s'. sbrk \<lparr>heap_base = 0x20001000 :: 32 word, max_heap_size = 100, heap_sz = 60,
                    heap_sem = heap_sem_init\<rparr> 39 = Some (ret, s') \<and>
             uint (heap_sz s') < uint (max_heap_size s')) \<and>
   (\<exists>rets s'. sbrk_calls (libc_init (0x20001000 :: 32 word) 100) [60, 39, 1, - 99, 99, 0]
                 = Some (rets, s') \<and>
       uint (heap_sz s') < uint (100 :: 32 word) \<and>
       (\<forall>g\<in>set (granted [60, 39, 1, - 99, 99, 0] rets).
           uint (0x20001000 :: 32 word) + uint (100 :: 32 word) - 1 \<notin> byte_range g)) \<and>
   sbrk_calls (libc_init (0x20001000 :: 32 word) 0) [0, 5, - 3]
     = Some ([- 1, - 1, - 1], libc_init 0x20001000 0)"
  using sbrk_never_reaches_capacity [where 'a = 32 and base = "0x20001000" and cap = 100
          and counts = "[60, 39, 1, - 99, 99, 0]" and count = 39
          and s = "\<lparr>heap_base = 0x20001000, max_heap_size = 100, heap_sz = 60,
                     heap_sem = heap_sem_init\<rparr>"]
        sbrk_never_reaches_capacity [where 'a = 32 and base = "0x20001000" and cap = 0
          and counts = "[0, 5, - 3]" and count = 39
          and s = "\<lparr>heap_base = 0x20001000, max_heap_size = 100, heap_sz = 60,
                     heap_sem = heap_sem_init\<rparr>"]
  by (simp add: numeral_3_eq_3)

text \<open>
  The claim as first stated has the mark never equal to the capacity on any region. On
  a region of capacity 0 (which \<open>malloc_prepare\<close> provides for when no memory can be
  mapped) the mark equals the capacity from the start, and still does after a call.
\<close>

theorem sbrk_empty_region_counterexample:
  "sbrk_calls (libc_init (0x20001000 :: 32 word) 0) [0]
     = Some ([- 1], libc_init 0x20001000 0) \<and>
   uint (heap_sz (libc_init (0x20001000 :: 32 word) 0))
     = uint (max_heap_size (libc_init (0x20001000 :: 32 word) 0))"
  by (simp add: sbrk_eq sem_take_give_init libc_init_def)

section \<open>The semaphore around the mark\<close>

text \<open>
  C8. Any number of calls are started against a state whose semaphore is available and
  their statements are interleaved in any order; the history records, for every step,
  the caller and the count of the semaphore and the mark before and after it. Then, in
  every state so reached:
  \<^item> a call run alone goes from the take of line 364 to the \<open>return\<close>, ends as
    \<open>sbrk_build\<close> does, has taken the semaphore once and given it once, and leaves it
    available, on either path;
  \<^item> every caller has taken the semaphore exactly once as soon as it is past line 364
    and not before, and has given it exactly once when it has reached the \<open>return\<close>
    and not before, whatever it returns;
  \<^item> in the history the count went down only in steps from line 364, up only in steps
    from line 380, and the mark changed only in steps from line 373;
  \<^item> the callers that have taken and not yet given, plus the count of the semaphore,
    make exactly one;
  \<^item> a step whose effect apart from the mark depends on the mark it finds (a read), or
    that changes the mark (a write), is the statement of line 369, 372 or 373; and a
    caller about to execute one of these has taken the semaphore and not given it,
    the count is zero, and every other caller has given as often as it has taken;
  \<^item> while the count is zero, a call started then does not return and a caller at line
    364 has no step;
  \<^item> when every call has returned or not yet started, the semaphore is available;
  \<^item> as long as some call has not returned, some call can take a step; and the calls
    can all be run to their return, after which the semaphore is available and every
    caller has taken and given it once.
\<close>

theorem sbrk_lock_discipline:
  fixes g0 g :: "'a::len word libc_state"
  assumes "heap_sem g0 = heap_sem_init" and "\<forall>f\<in>set fs0. at_line f = L364"
    and "sbrk_schedule al (g0, fs0, []) sched = Some (g, fs, log)"
  shows "(\<exists>ret s' sched1 f' log1.
             sbrk_build al g0 count = Some (ret, s') \<and> heap_sem s' = heap_sem_init \<and>
             sbrk_schedule al (g0, [sbrk_enter count], []) sched1 = Some (s', [f'], log1) \<and>
             at_line f' = L382 \<and> loc_ret f' = ret \<and> takes 0 log1 = 1 \<and> gives 0 log1 = 1) \<and>
         (\<forall>t<length fs.
             takes t log = (if at_line (fs ! t) = L364 then 0 else 1) \<and>
             gives t log = (if at_line (fs ! t) = L382 then 1 else 0)) \<and>
         (\<forall>e\<in>set log.
             (ev_sem_after e < ev_sem_before e \<longrightarrow> ev_line e = L364) \<and>
             (ev_sem_before e < ev_sem_after e \<longrightarrow> ev_line e = L380) \<and>
             (ev_mark_after e \<noteq> ev_mark_before e \<longrightarrow> ev_line e = L373)) \<and>
         length (filter (\<lambda>t. gives t log < takes t log) [0..<length fs]) +
           sem_count (heap_sem g) = 1 \<and>
         (\<forall>t<length fs. \<forall>m.
             sbrk_step_beside_mark al (g\<lparr>heap_sz := m\<rparr>) (fs ! t) \<noteq>
               sbrk_step_beside_mark al g (fs ! t) \<or>
             (\<exists>g' f'. sbrk_step al g (fs ! t) = Some (g', f') \<and> heap_sz g' \<noteq> heap_sz g) \<longrightarrow>
             at_line (fs ! t) \<in> {L369, L372, L373}) \<and>
         (\<forall>t<length fs. at_line (fs ! t) \<in> {L369, L372, L373} \<longrightarrow>
             takes t log = 1 \<and> gives t log = 0 \<and> sem_count (heap_sem g) = 0 \<and>
             (\<forall>u<length fs. u \<noteq> t \<longrightarrow> takes u log = gives u log)) \<and>
         (sem_count (heap_sem g) = 0 \<longrightarrow>
             sbrk_build al g count = None \<and>
             (\<forall>t<length fs. at_line (fs ! t) = L364 \<longrightarrow> sbrk_step al g (fs ! t) = None)) \<and>
         ((\<forall>f\<in>set fs. at_line f = L364 \<or> at_line f = L382) \<longrightarrow>
             heap_sem g = heap_sem_init) \<and>
         ((\<exists>t<length fs. at_line (fs ! t) \<noteq> L382) \<longrightarrow>
             (\<exists>u. sbrk_schedule al (g, fs, log) [u] \<noteq> None)) \<and>
         (\<exists>sched' g' fs' log'.
             sbrk_schedule al (g, fs, log) sched' = Some (g', fs', log') \<and>
             (\<forall>f\<in>set fs'. at_line f = L382) \<and> heap_sem g' = heap_sem_init \<and>
             (\<forall>t<length fs'. takes t log' = 1 \<and> gives t log' = 1))"
proof -
  have alone: "\<exists>ret s' sched1 f' log1.
      sbrk_build al g0 count = Some (ret, s') \<and> heap_sem s' = heap_sem_init \<and>
      sbrk_schedule al (g0, [sbrk_enter count], []) sched1 = Some (s', [f'], log1) \<and>
      at_line f' = L382 \<and> loc_ret f' = ret \<and> takes 0 log1 = 1 \<and> gives 0 log1 = 1"
    using assms(1) by (rule sbrk_steps_alone)
  have inv0: "lock_inv (g0, fs0, [])"
    using assms(1,2) by (rule lock_inv_init)
  then have inv: "lock_inv (g, fs, log)"
    using assms(3) by (rule lock_inv_schedule)
  then have hist: "\<forall>t<length fs.
      takes t log = (if at_line (fs ! t) = L364 then 0 else 1) \<and>
      gives t log = (if at_line (fs ! t) = L382 then 1 else 0)"
    by (simp add: lock_inv_def)
  have events: "\<forall>e\<in>set log.
      (ev_sem_after e < ev_sem_before e \<longrightarrow> ev_line e = L364) \<and>
      (ev_sem_before e < ev_sem_after e \<longrightarrow> ev_line e = L380) \<and>
      (ev_mark_after e \<noteq> ev_mark_before e \<longrightarrow> ev_line e = L373)"
  proof -
    have "\<forall>e\<in>set (snd (snd (g, fs, log))). event_ok e"
      using assms(3) by (rule sbrk_schedule_log) simp
    then have "\<forall>e\<in>set log. event_ok e"
      by simp
    then show ?thesis
      unfolding event_ok_def .
  qed
  have one: "length (filter (\<lambda>t. gives t log < takes t log) [0..<length fs]) +
      sem_count (heap_sem g) = 1"
    using inv by (rule lock_inv_holders)
  have touch: "\<forall>t<length fs. \<forall>m.
      sbrk_step_beside_mark al (g\<lparr>heap_sz := m\<rparr>) (fs ! t) \<noteq>
        sbrk_step_beside_mark al g (fs ! t) \<or>
      (\<exists>g' f'. sbrk_step al g (fs ! t) = Some (g', f') \<and> heap_sz g' \<noteq> heap_sz g) \<longrightarrow>
      at_line (fs ! t) \<in> {L369, L372, L373}"
    by (intro allI impI) (rule sbrk_step_touches)
  have excl: "\<forall>t<length fs. at_line (fs ! t) \<in> {L369, L372, L373} \<longrightarrow>
      takes t log = 1 \<and> gives t log = 0 \<and> sem_count (heap_sem g) = 0 \<and>
      (\<forall>u<length fs. u \<noteq> t \<longrightarrow> takes u log = gives u log)"
    using inv by (intro allI impI) (rule lock_inv_exclusive)
  have block: "sem_count (heap_sem g) = 0 \<longrightarrow>
      sbrk_build al g count = None \<and>
      (\<forall>t<length fs. at_line (fs ! t) = L364 \<longrightarrow> sbrk_step al g (fs ! t) = None)"
    by (simp add: sbrk_build_blocks sbrk_step_blocks)
  have idle: "(\<forall>f\<in>set fs. at_line f = L364 \<or> at_line f = L382) \<longrightarrow>
      heap_sem g = heap_sem_init"
    using inv by (auto dest: lock_inv_idle)
  have live: "(\<exists>t<length fs. at_line (fs ! t) \<noteq> L382) \<longrightarrow>
      (\<exists>u. sbrk_schedule al (g, fs, log) [u] \<noteq> None)"
  proof
    assume "\<exists>t<length fs. at_line (fs ! t) \<noteq> L382"
    then obtain t where "t < length fs" "at_line (fs ! t) \<noteq> L382"
      by blast
    from lock_inv_progress [OF inv this, of al] obtain u where
      "u < length fs" "sbrk_step al g (fs ! u) \<noteq> None"
      by blast
    then have "sbrk_schedule al (g, fs, log) [u] \<noteq> None"
      by auto
    then show "\<exists>u. sbrk_schedule al (g, fs, log) [u] \<noteq> None" ..
  qed
  from sbrk_schedule_complete [OF inv, of al] obtain sched' g' fs' log' where
    run: "sbrk_schedule al (g, fs, log) sched' = Some (g', fs', log')"
    and fin: "\<forall>f\<in>set fs'. at_line f = L382"
    by blast
  have inv': "lock_inv (g', fs', log')"
    using inv run by (rule lock_inv_schedule)
  then have free: "heap_sem g' = heap_sem_init"
    using fin by (auto dest: lock_inv_idle)
  have "\<forall>t<length fs'. takes t log' = 1 \<and> gives t log' = 1"
    using inv' fin by (simp add: lock_inv_def)
  with run fin free have complete: "\<exists>sched' g' fs' log'.
      sbrk_schedule al (g, fs, log) sched' = Some (g', fs', log') \<and>
      (\<forall>f\<in>set fs'. at_line f = L382) \<and> heap_sem g' = heap_sem_init \<and>
      (\<forall>t<length fs'. takes t log' = 1 \<and> gives t log' = 1)"
    by blast
  from alone hist events one touch excl block idle live complete show ?thesis
    by (intro conjI)
qed

text \<open>
  Two callers on a fresh region of 100 bytes, the first asking for 200 bytes and the
  second for 10. After the first has failed and returned and the second has reached
  line 373, the first has taken and given the semaphore, the second has taken it and
  holds it, and a third call would wait. When the second caller runs first, the first
  waits at line 364. After both have returned the semaphore is available again, and
  the one step of the history that changed the mark (from 0 to 10) was taken by the
  second caller from line 373.
\<close>

theorem sbrk_lock_discipline_witness:
  "(\<exists>g fs log.
      sbrk_schedule False (libc_init (0x20001000 :: 32 word) 100, [sbrk_enter 200, sbrk_enter 10], [])
        [0, 0, 0, 0, 0, 1, 1, 1] = Some (g, fs, log) \<and>
      loc_ret (fs ! 0) = - 1 \<and> at_line (fs ! 0) = L382 \<and> at_line (fs ! 1) = L373 \<and>
      takes 0 log = 1 \<and> gives 0 log = 1 \<and> takes 1 log = 1 \<and> gives 1 log = 0 \<and>
      sem_count (heap_sem g) = 0 \<and> sbrk_build False g 5 = None \<and>
      length (filter (\<lambda>t. gives t log < takes t log) [0..<length fs]) +
        sem_count (heap_sem g) = 1 \<and>
      (\<exists>u. sbrk_schedule False (g, fs, log) [u] \<noteq> None) \<and>
      (\<exists>sched' g' fs' log'.
          sbrk_schedule False (g, fs, log) sched' = Some (g', fs', log') \<and>
          (\<forall>f\<in>set fs'. at_line f = L382) \<and> heap_sem g' = heap_sem_init \<and>
          (\<forall>t<length fs'. takes t log' = 1 \<and> gives t log' = 1))) \<and>
   (\<exists>g fs log.
      sbrk_schedule False (libc_init (0x20001000 :: 32 word) 100, [sbrk_enter 200, sbrk_enter 10], [])
        [1, 1] = Some (g, fs, log) \<and>
      at_line (fs ! 0) = L364 \<and> at_line (fs ! 1) = L372 \<and>
      sbrk_step False g (fs ! 0) = None \<and> takes 0 log = gives 0 log) \<and>
   (\<exists>g fs log.
      sbrk_schedule False (libc_init (0x20001000 :: 32 word) 100, [sbrk_enter 200, sbrk_enter 10], [])
        [0, 0, 0, 0, 0, 1, 1, 1, 1, 1, 1] = Some (g, fs, log) \<and>
      loc_ret (fs ! 0) = - 1 \<and> loc_ret (fs ! 1) = 0x20001000 \<and> heap_sz g = 10 \<and>
      heap_sem g = heap_sem_init \<and> takes 1 log = 1 \<and> gives 1 log = 1 \<and>
      ev_caller (log ! 8) = 1 \<and> ev_mark_before (log ! 8) = 0 \<and>
      ev_mark_after (log ! 8) = 10 \<and> ev_line (log ! 8) = L373)"
proof (intro conjI)
  let ?G = "libc_init (0x20001000 :: 32 word) 100"
  let ?F = "[sbrk_enter 200, sbrk_enter 10 :: 32 word sbrk_frame]"
  let ?H = "\<lparr>heap_base = 0x20001000 :: 32 word, max_heap_size = 100, heap_sz = 0,
             heap_sem = \<lparr>sem_count = 0, sem_limit = 1\<rparr>\<rparr>"
  let ?K = "[\<lparr>at_line = L382, arg_count = 200 :: 32 word, loc_ptr = 0x20001000, loc_ret = - 1\<rparr>,
             \<lparr>at_line = L373, arg_count = 10, loc_ptr = 0x20001000, loc_ret = 0\<rparr>]"
  let ?M = "\<lparr>heap_base = 0x20001000 :: 32 word, max_heap_size = 100, heap_sz = 10,
             heap_sem = \<lparr>sem_count = 1, sem_limit = 1\<rparr>\<rparr>"
  let ?N = "[\<lparr>at_line = L382, arg_count = 200 :: 32 word, loc_ptr = 0x20001000, loc_ret = - 1\<rparr>,
             \<lparr>at_line = L382, arg_count = 10, loc_ptr = 0x20001000, loc_ret = 0x20001000\<rparr>]"
  let ?P = "[\<lparr>at_line = L364, arg_count = 200 :: 32 word, loc_ptr = 0, loc_ret = 0\<rparr>,
             \<lparr>at_line = L372, arg_count = 10, loc_ptr = 0x20001000, loc_ret = 0\<rparr>]"
  have h1: "heap_sem ?G = heap_sem_init"
    by (simp add: libc_init_def)
  have h2: "\<forall>f\<in>set ?F. at_line f = L364"
    by (simp add: sbrk_enter_def)
  obtain la where h3: "sbrk_schedule False (?G, ?F, []) [0, 0, 0, 0, 0, 1, 1, 1] = Some (?H, ?K, la)"
    by (simp add: sbrk_step_def sbrk_enter_def libc_init_def heap_sem_init_def
          sys_sem_take_def sys_sem_give_def heap_fits_def)
  have h4: "\<exists>t<length ?K. at_line (?K ! t) \<noteq> L382"
    by (intro exI [of _ 1]) simp
  have h5: "loc_ret (?K ! 0) = - 1" "at_line (?K ! 0) = L382" "at_line (?K ! 1) = L373"
    by simp_all
  note reached = sbrk_lock_discipline [OF h1 h2 h3, of 5]
  note hist = reached [THEN conjunct2, THEN conjunct1]
  note one = reached [THEN conjunct2, THEN conjunct2, THEN conjunct2, THEN conjunct1]
  note touch = reached [THEN conjunct2, THEN conjunct2, THEN conjunct2, THEN conjunct2,
      THEN conjunct1]
  note excl = reached [THEN conjunct2, THEN conjunct2, THEN conjunct2, THEN conjunct2,
      THEN conjunct2, THEN conjunct1]
  note block = reached [THEN conjunct2, THEN conjunct2, THEN conjunct2, THEN conjunct2,
      THEN conjunct2, THEN conjunct2, THEN conjunct1]
  note live = reached [THEN conjunct2, THEN conjunct2, THEN conjunct2, THEN conjunct2,
      THEN conjunct2, THEN conjunct2, THEN conjunct2, THEN conjunct2, THEN conjunct1]
  note fin = reached [THEN conjunct2, THEN conjunct2, THEN conjunct2, THEN conjunct2,
      THEN conjunct2, THEN conjunct2, THEN conjunct2, THEN conjunct2, THEN conjunct2]
  have writes: "\<exists>g' f'. sbrk_step False ?H (?K ! 1) = Some (g', f') \<and> heap_sz g' \<noteq> heap_sz ?H"
    by (simp add: sbrk_step_def)
  from touch [THEN spec, of 1] writes have "at_line (?K ! 1) \<in> {L369, L372, L373}"
    by simp
  with excl [THEN spec, of 1] have held: "takes 1 la = 1" "gives 1 la = 0"
    "sem_count (heap_sem ?H) = 0" "\<forall>u<length ?K. u \<noteq> 1 \<longrightarrow> takes u la = gives u la"
    by simp_all
  from hist [THEN spec, of 0] have ret: "takes 0 la = 1" "gives 0 la = 1"
    by simp_all
  from block held(3) have blocked: "sbrk_build False ?H 5 = None"
    by simp
  from live h4 have step: "\<exists>u. sbrk_schedule False (?H, ?K, la) [u] \<noteq> None"
    by (rule mp)
  from h3 h5 ret held(1,2,3) blocked one step fin
  show "\<exists>g fs log. sbrk_schedule False (?G, ?F, []) [0, 0, 0, 0, 0, 1, 1, 1] = Some (g, fs, log) \<and>
      loc_ret (fs ! 0) = - 1 \<and> at_line (fs ! 0) = L382 \<and> at_line (fs ! 1) = L373 \<and>
      takes 0 log = 1 \<and> gives 0 log = 1 \<and> takes 1 log = 1 \<and> gives 1 log = 0 \<and>
      sem_count (heap_sem g) = 0 \<and> sbrk_build False g 5 = None \<and>
      length (filter (\<lambda>t. gives t log < takes t log) [0..<length fs]) +
        sem_count (heap_sem g) = 1 \<and>
      (\<exists>u. sbrk_schedule False (g, fs, log) [u] \<noteq> None) \<and>
      (\<exists>sched' g' fs' log'.
          sbrk_schedule False (g, fs, log) sched' = Some (g', fs', log') \<and>
          (\<forall>f\<in>set fs'. at_line f = L382) \<and> heap_sem g' = heap_sem_init \<and>
          (\<forall>t<length fs'. takes t log' = 1 \<and> gives t log' = 1))"
    by (intro exI [of _ ?H] exI [of _ ?K] exI [of _ la] conjI) assumption+
  obtain lb where h9: "sbrk_schedule False (?G, ?F, []) [1, 1] = Some (?H, ?P, lb)"
    by (simp add: sbrk_step_def sbrk_enter_def libc_init_def heap_sem_init_def
          sys_sem_take_def sys_sem_give_def heap_fits_def)
  note contended = sbrk_lock_discipline [OF h1 h2 h9, of 5]
  note block2 = contended [THEN conjunct2, THEN conjunct2, THEN conjunct2, THEN conjunct2,
      THEN conjunct2, THEN conjunct2, THEN conjunct1]
  note excl2 = contended [THEN conjunct2, THEN conjunct2, THEN conjunct2, THEN conjunct2,
      THEN conjunct2, THEN conjunct1]
  have h10: "at_line (?P ! 0) = L364" "at_line (?P ! 1) = L372"
    by simp_all
  have h11: "sem_count (heap_sem ?H) = 0"
    by simp
  from block2 [THEN mp, OF h11, THEN conjunct2, THEN spec, of 0]
  have waits: "sbrk_step False ?H (?P ! 0) = None"
    by simp
  from excl2 [THEN spec, of 1] have other: "takes 0 lb = gives 0 lb"
    by simp
  from h9 h10 waits other
  show "\<exists>g fs log. sbrk_schedule False (?G, ?F, []) [1, 1] = Some (g, fs, log) \<and>
      at_line (fs ! 0) = L364 \<and> at_line (fs ! 1) = L372 \<and>
      sbrk_step False g (fs ! 0) = None \<and> takes 0 log = gives 0 log"
    by (intro exI [of _ ?H] exI [of _ ?P] exI [of _ lb] conjI) assumption+
  obtain lc where h6: "sbrk_schedule False (?G, ?F, []) [0, 0, 0, 0, 0, 1, 1, 1, 1, 1, 1] =
      Some (?M, ?N, lc)"
    and h12: "length lc = 11" "ev_caller (lc ! 8) = 1" "ev_mark_before (lc ! 8) = 0"
      "ev_mark_after (lc ! 8) = 10"
    by (simp add: sbrk_step_def sbrk_enter_def libc_init_def heap_sem_init_def
          sys_sem_take_def sys_sem_give_def heap_fits_def sbrk_observe_def)
  have h7: "\<forall>f\<in>set ?N. at_line f = L364 \<or> at_line f = L382"
    by simp
  have h8: "loc_ret (?N ! 0) = - 1" "loc_ret (?N ! 1) = 0x20001000" "heap_sz ?M = 10"
    by simp_all
  note returned = sbrk_lock_discipline [OF h1 h2 h6, of 5]
  note idle = returned [THEN conjunct2, THEN conjunct2, THEN conjunct2, THEN conjunct2,
      THEN conjunct2, THEN conjunct2, THEN conjunct2, THEN conjunct1]
  note hist3 = returned [THEN conjunct2, THEN conjunct1]
  from idle h7 have free: "heap_sem ?M = heap_sem_init"
    by (rule mp)
  from hist3 [THEN spec, of 1] have both: "takes 1 lc = 1" "gives 1 lc = 1"
    by simp_all
  note events = returned [THEN conjunct2, THEN conjunct2, THEN conjunct1]
  have "lc ! 8 \<in> set lc"
    using h12(1) by (intro nth_mem) simp
  with events have "ev_mark_after (lc ! 8) \<noteq> ev_mark_before (lc ! 8) \<longrightarrow> ev_line (lc ! 8) = L373"
    by blast
  with h12(3,4) have wrote: "ev_line (lc ! 8) = L373"
    by simp
  from h6 h8 free both h12(2,3,4) wrote
  show "\<exists>g fs log. sbrk_schedule False (?G, ?F, []) [0, 0, 0, 0, 0, 1, 1, 1, 1, 1, 1] =
        Some (g, fs, log) \<and>
      loc_ret (fs ! 0) = - 1 \<and> loc_ret (fs ! 1) = 0x20001000 \<and> heap_sz g = 10 \<and>
      heap_sem g = heap_sem_init \<and> takes 1 log = 1 \<and> gives 1 log = 1 \<and>
      ev_caller (log ! 8) = 1 \<and> ev_mark_before (log ! 8) = 0 \<and>
      ev_mark_after (log ! 8) = 10 \<and> ev_line (log ! 8) = L373"
    by (intro exI [of _ ?M] exI [of _ ?N] exI [of _ lc] conjI) assumption+
qed

section \<open>The console hooks\<close>

text \<open>
  C10. For a buffer of at least \<open>nbytes\<close> bytes and \<open>nbytes\<close> non-negative,
  \<open>z_impl_zephyr_write_stdout\<close> returns \<open>nbytes\<close> and hands \<open>putchar\<close> the first
  \<open>nbytes\<close> bytes of the buffer in order, each newline preceded by a carriage return;
  \<open>z_impl_zephyr_read_stdin\<close> returns a count \<open>i\<close> with \<open>0 \<le> i \<le> nbytes\<close>, having
  called \<open>getchar\<close> \<open>i\<close> times and stored the results in the first \<open>i\<close> bytes of the
  buffer; none of the first \<open>i - 1\<close> of them is a newline or a carriage return, and if
  \<open>i < nbytes\<close> then the last one is (the terminator is counted).
\<close>

theorem console_hooks_counts:
  assumes "0 \<le> nbytes" and "nbytes \<le> int (length buf)"
  shows "z_impl_zephyr_write_stdout buf nbytes out =
           Some (nbytes,
                 out @ concat (map (\<lambda>c. if c = 0x0A then [0x0D, c] else [c])
                                   (take (nat nbytes) buf))) \<and>
         (\<exists>i buf' inp'. z_impl_zephyr_read_stdin buf nbytes inp = Some (i, buf', inp') \<and>
            0 \<le> i \<and> i \<le> nbytes \<and> inp' = drop (nat i) inp \<and>
            (\<forall>j. 0 \<le> j \<and> j < i \<longrightarrow>
                 buf' ! nat j = word_of_int (fst (getchar (drop (nat j) inp)))) \<and>
            (\<forall>j. 0 \<le> j \<and> j < i - 1 \<longrightarrow> buf' ! nat j \<noteq> 0x0A \<and> buf' ! nat j \<noteq> 0x0D) \<and>
            (i < nbytes \<longrightarrow>
               0 < i \<and> (buf' ! nat (i - 1) = 0x0A \<or> buf' ! nat (i - 1) = 0x0D)))"
proof
  have "write_stdout_loop buf nbytes 0 out =
      Some (out @ concat (map (\<lambda>c. if c = 0x0A then [0x0D, c] else [c])
                              (drop (nat 0) (take (nat nbytes) buf))))"
    using assms by (intro write_stdout_loop_eq) simp_all
  then show "z_impl_zephyr_write_stdout buf nbytes out =
      Some (nbytes, out @ concat (map (\<lambda>c. if c = 0x0A then [0x0D, c] else [c])
                                       (take (nat nbytes) buf)))"
    by (simp add: z_impl_zephyr_write_stdout_def)
next
  from read_stdin_loop_spec [of 0 nbytes buf inp] assms
  obtain r buf' inp' where
    run: "read_stdin_loop buf nbytes 0 inp = Some (r, buf', inp')"
    and r: "0 \<le> r" "r \<le> nbytes"
    and rest: "inp' = drop (nat (r - 0)) inp"
    and new: "\<forall>j. 0 \<le> j \<and> j < r \<longrightarrow>
           buf' ! nat j = word_of_int (fst (getchar (drop (nat (j - 0)) inp)))"
    and mid: "\<forall>j. 0 \<le> j \<and> j < r - 1 \<longrightarrow> buf' ! nat j \<noteq> 0x0A \<and> buf' ! nat j \<noteq> 0x0D"
    and last: "r < nbytes \<longrightarrow> 0 < r \<and> (buf' ! nat (r - 1) = 0x0A \<or> buf' ! nat (r - 1) = 0x0D)"
    by auto
  have "z_impl_zephyr_read_stdin buf nbytes inp = Some (r, buf', inp')"
    using run by (simp add: z_impl_zephyr_read_stdin_def)
  moreover have "inp' = drop (nat r) inp"
    using rest by simp
  moreover have "\<forall>j. 0 \<le> j \<and> j < r \<longrightarrow>
           buf' ! nat j = word_of_int (fst (getchar (drop (nat j) inp)))"
    using new by simp
  ultimately show "\<exists>i buf' inp'. z_impl_zephyr_read_stdin buf nbytes inp = Some (i, buf', inp') \<and>
            0 \<le> i \<and> i \<le> nbytes \<and> inp' = drop (nat i) inp \<and>
            (\<forall>j. 0 \<le> j \<and> j < i \<longrightarrow>
                 buf' ! nat j = word_of_int (fst (getchar (drop (nat j) inp)))) \<and>
            (\<forall>j. 0 \<le> j \<and> j < i - 1 \<longrightarrow> buf' ! nat j \<noteq> 0x0A \<and> buf' ! nat j \<noteq> 0x0D) \<and>
            (i < nbytes \<longrightarrow>
               0 < i \<and> (buf' ! nat (i - 1) = 0x0A \<or> buf' ! nat (i - 1) = 0x0D))"
    using r mid last by blast
qed

theorem console_hooks_counts_witness:
  "z_impl_zephyr_write_stdout [0x68, 0x0A, 0x69, 0x0A, 0x21] 4 []
     = Some (4, [0x68, 0x0D, 0x0A, 0x69, 0x0D, 0x0A]) \<and>
   (\<exists>i buf' inp'. z_impl_zephyr_read_stdin [0x68, 0x0A, 0x69, 0x0A, 0x21] 4 [0x6F, 0x6B, 0x0D, 0x7A]
                     = Some (i, buf', inp') \<and>
      0 \<le> i \<and> i \<le> 4 \<and> inp' = drop (nat i) [0x6F, 0x6B, 0x0D, 0x7A] \<and>
      (i < 4 \<longrightarrow> 0 < i \<and> (buf' ! nat (i - 1) = 0x0A \<or> buf' ! nat (i - 1) = 0x0D)))"
  using console_hooks_counts [of 4 "[0x68, 0x0A, 0x69, 0x0A, 0x21]" "[]" "[0x6F, 0x6B, 0x0D, 0x7A]"]
  by auto

end
